theory Spec2Isabelle
  imports Main "HOL-Library.Word"
begin

unbundle bit_operations_syntax

section \<open>Data model\<close>

text \<open>
  The vertex codec of \<^verbatim>\<open>tools/codectest.cpp\<close> works on bytes (\<^verbatim>\<open>unsigned char\<close>) and,
  in the bit-plane codec, on 32-bit words (\<^verbatim>\<open>unsigned int\<close>). Sizes and offsets
  (\<^verbatim>\<open>size_t\<close>) are natural numbers; the one place where a \<^verbatim>\<open>size_t\<close> could wrap, the
  conversion of a pointer difference, is written out in \<open>size_diff\<close>.
\<close>

type_synonym u8 = "8 word"
type_synonym u32 = "32 word"

text \<open>
  The destination buffer. A pointer into it (\<^verbatim>\<open>data\<close>, \<^verbatim>\<open>header\<close>, \<^verbatim>\<open>data_end\<close>) is an
  offset from its start. C leaves a write beyond the buffer undefined; the model
  records it in \<open>overrun\<close> and drops the byte. A failed \<^verbatim>\<open>assert\<close> is recorded in
  \<open>aborted\<close>. Both flags are sticky: no operation clears them.
\<close>

record dest =
  bytes :: "u8 list"
  overrun :: bool
  aborted :: bool

definition store :: "dest \<Rightarrow> nat \<Rightarrow> u8 \<Rightarrow> dest" where
  "store d p v =
     (if p < length (bytes d) then d\<lparr>bytes := (bytes d)[p := v]\<rparr> else d\<lparr>overrun := True\<rparr>)"

definition load :: "dest \<Rightarrow> nat \<Rightarrow> u8" where
  "load d p = bytes d ! p"

fun blit :: "dest \<Rightarrow> nat \<Rightarrow> u8 list \<Rightarrow> dest" where
  "blit d p [] = d"
| "blit d p (x # xs) = blit (store d p x) (p + 1) xs"

text \<open>\<^verbatim>\<open>memcpy(dst + p, src, n)\<close> and \<^verbatim>\<open>memset(dst + p, c, n)\<close> into the destination buffer.\<close>

definition memcpy_dest :: "dest \<Rightarrow> nat \<Rightarrow> u8 list \<Rightarrow> nat \<Rightarrow> dest" where
  "memcpy_dest d p src n = blit d p (take n src)"

definition memset_dest :: "dest \<Rightarrow> nat \<Rightarrow> u8 \<Rightarrow> nat \<Rightarrow> dest" where
  "memset_dest d p c n = blit d p (replicate n c)"

text \<open>\<^verbatim>\<open>memcpy(dst, src, n)\<close> into a local array (\<^verbatim>\<open>first_vertex\<close>, \<^verbatim>\<open>last_vertex\<close>).\<close>

definition memcpy_array :: "u8 list \<Rightarrow> u8 list \<Rightarrow> nat \<Rightarrow> u8 list" where
  "memcpy_array dst src n = take n src @ drop n dst"

definition assert_that :: "dest \<Rightarrow> bool \<Rightarrow> dest" where
  "assert_that d c = (if c then d else d\<lparr>aborted := True\<rparr>)"

text \<open>\<^verbatim>\<open>size_t(a - b)\<close> for two pointers into the buffer, on a 64-bit target.\<close>

definition size_diff :: "nat \<Rightarrow> nat \<Rightarrow> nat" where
  "size_diff a b = nat ((int a - int b) mod 2 ^ 64)"

section \<open>Constants\<close>

definition kVertexHeader :: u8 where
  "kVertexHeader = 0xa0"

definition gEncodeVertexVersion :: int where
  "gEncodeVertexVersion = 1"

definition kVertexBlockSizeBytes :: nat where
  "kVertexBlockSizeBytes = 8192"

definition kVertexBlockMaxSize :: nat where
  "kVertexBlockMaxSize = 256"

definition kByteGroupSize :: nat where
  "kByteGroupSize = 16"

definition kByteGroupDecodeLimit :: nat where
  "kByteGroupDecodeLimit = 24"

definition kTailMaxSize :: nat where
  "kTailMaxSize = 32"

section \<open>Block size and the zigzag transform\<close>

text \<open>\<^verbatim>\<open>x & ~(kByteGroupSize - 1)\<close> on a \<^verbatim>\<open>size_t\<close>.\<close>

definition align_down :: "nat \<Rightarrow> nat" where
  "align_down x = nat (int x AND NOT (int kByteGroupSize - 1))"

definition getVertexBlockSize :: "nat \<Rightarrow> nat" where
  "getVertexBlockSize vertex_size =
     (let result = kVertexBlockSizeBytes div vertex_size;
          result = align_down result
      in if result < kVertexBlockMaxSize then result else kVertexBlockMaxSize)"

text \<open>
  \<^verbatim>\<open>((signed char)(v) >> 7) ^ (v << 1)\<close>: both operands are promoted to \<^verbatim>\<open>int\<close>, the
  shift of the signed value is arithmetic, and the result is truncated to a byte.
\<close>

definition zigzag8 :: "u8 \<Rightarrow> u8" where
  "zigzag8 v = word_of_int (drop_bit 7 (sint v) XOR push_bit 1 (uint v))"

text \<open>
  Modelled from the spec: the decoder's inverse of the zigzag transform,
  \<^verbatim>\<open>(v >> 1) XOR -(v & 1)\<close> on bytes. The decoder is not part of the given source.
\<close>

definition unzigzag8 :: "u8 \<Rightarrow> u8" where
  "unzigzag8 v = drop_bit 1 v XOR - (v AND 1)"

section \<open>Adaptive byte-group packer\<close>

text \<open>
  A \<^verbatim>\<open>const unsigned char* buffer\<close> is the list of bytes from the pointer on, so
  \<^verbatim>\<open>buffer + i\<close> is \<open>drop i buffer\<close> and \<^verbatim>\<open>buffer[i]\<close> is \<open>buffer ! i\<close>.
\<close>

function encodeBytesGroupZero_from :: "u8 list \<Rightarrow> nat \<Rightarrow> bool" where
  "encodeBytesGroupZero_from buffer i =
     (if i < kByteGroupSize then
        (if buffer ! i \<noteq> 0 then False else encodeBytesGroupZero_from buffer (i + 1))
      else True)"
  by pat_completeness auto
termination
  by (relation "measure (\<lambda>(buffer, i). kByteGroupSize - i)") auto

definition encodeBytesGroupZero :: "u8 list \<Rightarrow> bool" where
  "encodeBytesGroupZero buffer = encodeBytesGroupZero_from buffer 0"

text \<open>The inner loop over \<open>k\<close>: one output byte of the fixed portion.\<close>

function encodeBytesGroupTry_pack ::
  "u8 list \<Rightarrow> nat \<Rightarrow> u8 \<Rightarrow> nat \<Rightarrow> nat \<Rightarrow> nat \<Rightarrow> u8 \<Rightarrow> u8" where
  "encodeBytesGroupTry_pack buffer bits sentinel byte_size i k byte =
     (if k < byte_size then
        let enc = (if buffer ! (i + k) \<ge> sentinel then sentinel else buffer ! (i + k));
            byte = push_bit bits byte;
            byte = byte OR enc
        in encodeBytesGroupTry_pack buffer bits sentinel byte_size i (k + 1) byte
      else byte)"
  by pat_completeness auto
termination
  by (relation "measure (\<lambda>(buffer, bits, sentinel, byte_size, i, k, byte). byte_size - k)") auto

text \<open>
  The loop over \<open>i\<close> in steps of \<open>byte_size\<close>. The source asserts \<open>1 \<le> bits \<le> 8\<close>, so
  \<open>byte_size\<close> is positive whenever the loop is reached; the second conjunct of the
  loop condition only makes the recursion well-founded.
\<close>

function encodeBytesGroupTry_fixed ::
  "dest \<Rightarrow> nat \<Rightarrow> u8 list \<Rightarrow> nat \<Rightarrow> u8 \<Rightarrow> nat \<Rightarrow> nat \<Rightarrow> dest \<times> nat" where
  "encodeBytesGroupTry_fixed d data buffer bits sentinel byte_size i =
     (if i < kByteGroupSize \<and> 0 < byte_size then
        let byte = encodeBytesGroupTry_pack buffer bits sentinel byte_size i 0 0
        in encodeBytesGroupTry_fixed (store d data byte) (data + 1)
             buffer bits sentinel byte_size (i + byte_size)
      else (d, data))"
  by pat_completeness auto
termination
  by (relation "measure (\<lambda>(d, data, buffer, bits, sentinel, byte_size, i). kByteGroupSize - i)")
    auto

function encodeBytesGroupTry_escapes ::
  "dest \<Rightarrow> nat \<Rightarrow> u8 list \<Rightarrow> u8 \<Rightarrow> nat \<Rightarrow> dest \<times> nat" where
  "encodeBytesGroupTry_escapes d data buffer sentinel i =
     (if i < kByteGroupSize then
        (if buffer ! i \<ge> sentinel then
           encodeBytesGroupTry_escapes (store d data (buffer ! i)) (data + 1) buffer sentinel (i + 1)
         else encodeBytesGroupTry_escapes d data buffer sentinel (i + 1))
      else (d, data))"
  by pat_completeness auto
termination
  by (relation "measure (\<lambda>(d, data, buffer, sentinel, i). kByteGroupSize - i)") auto

text \<open>
  The result is the destination and the returned pointer, \<open>None\<close> for \<^verbatim>\<open>NULL\<close>. A failed
  entry assertion ends the call.
\<close>

definition encodeBytesGroupTry :: "dest \<Rightarrow> nat \<Rightarrow> u8 list \<Rightarrow> nat \<Rightarrow> dest \<times> nat option" where
  "encodeBytesGroupTry d data buffer bits =
     (if \<not> (1 \<le> bits \<and> bits \<le> 8) then (d\<lparr>aborted := True\<rparr>, None)
      else if bits = 1 then (d, if encodeBytesGroupZero buffer then Some data else None)
      else if bits = 8 then
        (memcpy_dest d data buffer kByteGroupSize, Some (data + kByteGroupSize))
      else
        let byte_size = 8 div bits;
            d = assert_that d (kByteGroupSize mod byte_size = 0);
            sentinel = (word_of_int (push_bit bits 1 - 1) :: u8);
            (d, data) = encodeBytesGroupTry_fixed d data buffer bits sentinel byte_size 0;
            (d, data) = encodeBytesGroupTry_escapes d data buffer sentinel 0
        in (d, Some data))"

section \<open>Group-sequence encoder\<close>

text \<open>
  The loop \<^verbatim>\<open>for (int bits = 1; bits < 8; bits *= 2)\<close> with its state \<open>best_bits\<close>,
  \<open>best_size\<close>. It starts at 1; the conjunct \<open>0 < bits\<close> only makes the recursion
  well-founded.
\<close>

function encodeBytes_bits ::
  "dest \<Rightarrow> nat \<Rightarrow> u8 list \<Rightarrow> nat \<Rightarrow> nat \<Rightarrow> nat \<Rightarrow> dest \<times> nat \<times> nat" where
  "encodeBytes_bits d data buffer bits best_bits best_size =
     (if bits < 8 \<and> 0 < bits then
        let (d, next) = encodeBytesGroupTry d data buffer bits
        in if next \<noteq> None \<and> size_diff (the next) data < best_size then
             encodeBytes_bits d data buffer (bits * 2) bits (size_diff (the next) data)
           else encodeBytes_bits d data buffer (bits * 2) best_bits best_size
      else (d, best_bits, best_size))"
  by pat_completeness auto
termination
  by (relation "measure (\<lambda>(d, data, buffer, bits, best_bits, best_size). 8 - bits)") auto

text \<open>
  Lines 133 to 145 of the loop body: the baseline at width 8, then the search. The
  result carries the destination, which the attempts have written to.
\<close>

definition encodeBytes_best :: "dest \<Rightarrow> nat \<Rightarrow> u8 list \<Rightarrow> dest \<times> nat \<times> nat" where
  "encodeBytes_best d data buffer =
     (let best_bits = 8;
          (d, next8) = encodeBytesGroupTry d data buffer 8;
          best_size = size_diff (the next8) data
      in encodeBytes_bits d data buffer 1 best_bits best_size)"

function encodeBytes_groups ::
  "dest \<Rightarrow> nat \<Rightarrow> nat \<Rightarrow> u8 list \<Rightarrow> nat \<Rightarrow> nat \<Rightarrow> nat \<Rightarrow> dest \<times> nat option" where
  "encodeBytes_groups d data data_end buffer buffer_size header i =
     (if i < buffer_size then
        if size_diff data_end data < kByteGroupDecodeLimit then (d, None)
        else
          let (d, best_bits, best_size) = encodeBytes_best d data (drop i buffer);
              bitslog2 = (if best_bits = 1 then 0 else if best_bits = 2 then 1
                          else if best_bits = 4 then 2 else 3 :: nat);
              d = assert_that d (push_bit bitslog2 1 = best_bits);
              header_offset = i div kByteGroupSize;
              d = store d (header + header_offset div 4)
                    (load d (header + header_offset div 4)
                       OR push_bit ((header_offset mod 4) * 2) (of_nat bitslog2));
              (d, next) = encodeBytesGroupTry d data (drop i buffer) best_bits;
              d = assert_that d (next \<noteq> None \<and> data + best_size = the next)
          in encodeBytes_groups d (the next) data_end buffer buffer_size header
               (i + kByteGroupSize)
      else (d, Some data))"
  by pat_completeness auto
termination
  by (relation "measure (\<lambda>(d, data, data_end, buffer, buffer_size, header, i). buffer_size - i)")
    (auto simp: kByteGroupSize_def)

definition encodeBytes :: "dest \<Rightarrow> nat \<Rightarrow> nat \<Rightarrow> u8 list \<Rightarrow> nat \<Rightarrow> dest \<times> nat option" where
  "encodeBytes d data data_end buffer buffer_size =
     (let d = assert_that d (buffer_size mod kByteGroupSize = 0);
          header = data;
          header_size = (buffer_size div kByteGroupSize + 3) div 4
      in if size_diff data_end data < header_size then (d, None)
         else
           let data = data + header_size;
               d = memset_dest d header 0 header_size
           in encodeBytes_groups d data data_end buffer buffer_size header 0)"

section \<open>Vertex block encoder\<close>

text \<open>The loop over the records of a block, filling the scratch \<open>buffer\<close> for one channel.\<close>

function encodeVertexBlock_deltas ::
  "u8 list \<Rightarrow> u8 list \<Rightarrow> nat \<Rightarrow> nat \<Rightarrow> nat \<Rightarrow> u8 \<Rightarrow> nat \<Rightarrow> u8 list" where
  "encodeVertexBlock_deltas buffer vertex_data vertex_count vertex_size vertex_offset p i =
     (if i < vertex_count then
        encodeVertexBlock_deltas (buffer[i := zigzag8 (vertex_data ! vertex_offset - p)])
          vertex_data vertex_count vertex_size (vertex_offset + vertex_size)
          (vertex_data ! vertex_offset) (i + 1)
      else buffer)"
  by pat_completeness auto
termination
  by (relation "measure (\<lambda>(buffer, vertex_data, vertex_count, vertex_size, vertex_offset, p, i).
        vertex_count - i)") auto

function encodeVertexBlock_channels ::
  "dest \<Rightarrow> nat \<Rightarrow> nat \<Rightarrow> u8 list \<Rightarrow> nat \<Rightarrow> nat \<Rightarrow> u8 list \<Rightarrow> u8 list \<Rightarrow> nat
     \<Rightarrow> dest \<times> nat option" where
  "encodeVertexBlock_channels d data data_end vertex_data vertex_count vertex_size
       last_vertex buffer k =
     (if k < vertex_size then
        let vertex_offset = k;
            p = last_vertex ! k;
            buffer = encodeVertexBlock_deltas buffer vertex_data vertex_count vertex_size
                       vertex_offset p 0;
            (d, r) = encodeBytes d data data_end buffer
                       (align_down (vertex_count + kByteGroupSize - 1))
        in (case r of
              None \<Rightarrow> (d, None)
            | Some data \<Rightarrow>
                encodeVertexBlock_channels d data data_end vertex_data vertex_count vertex_size
                  last_vertex buffer (k + 1))
      else (d, Some data))"
  by pat_completeness auto
termination
  by (relation "measure (\<lambda>(d, data, data_end, vertex_data, vertex_count, vertex_size,
        last_vertex, buffer, k). vertex_size - k)") auto

text \<open>
  \<open>last_vertex\<close> is an in-out parameter: the result carries its value at return. On
  the early \<^verbatim>\<open>return NULL\<close> it has not been written.
\<close>

definition encodeVertexBlock ::
  "dest \<Rightarrow> nat \<Rightarrow> nat \<Rightarrow> u8 list \<Rightarrow> nat \<Rightarrow> nat \<Rightarrow> u8 list \<Rightarrow> dest \<times> nat option \<times> u8 list" where
  "encodeVertexBlock d data data_end vertex_data vertex_count vertex_size last_vertex =
     (let d = assert_that d (0 < vertex_count \<and> vertex_count \<le> kVertexBlockMaxSize);
          buffer = replicate kVertexBlockMaxSize (0 :: u8);
          d = assert_that d (length buffer mod kByteGroupSize = 0);
          (d, r) = encodeVertexBlock_channels d data data_end vertex_data vertex_count
                     vertex_size last_vertex buffer 0
      in case r of
           None \<Rightarrow> (d, None, last_vertex)
         | Some data \<Rightarrow>
             (d, Some data,
              memcpy_array last_vertex (drop (vertex_size * (vertex_count - 1)) vertex_data)
                vertex_size))"

section \<open>Stream encoder\<close>

text \<open>
  The \<^verbatim>\<open>while (vertex_offset < vertex_count)\<close> loop. The entry assertion on
  \<open>vertex_size\<close> makes \<open>vertex_block_size\<close> positive; the second conjunct of the loop
  condition only makes the recursion well-founded.
\<close>

function encodeV1_blocks ::
  "dest \<Rightarrow> nat \<Rightarrow> nat \<Rightarrow> u8 list \<Rightarrow> nat \<Rightarrow> nat \<Rightarrow> u8 list \<Rightarrow> nat \<Rightarrow> nat
     \<Rightarrow> dest \<times> nat option \<times> u8 list" where
  "encodeV1_blocks d data data_end vertex_data vertex_count vertex_size last_vertex
       vertex_block_size vertex_offset =
     (if vertex_offset < vertex_count \<and> 0 < vertex_block_size then
        let block_size = (if vertex_offset + vertex_block_size < vertex_count
                          then vertex_block_size else vertex_count - vertex_offset);
            (d, r, last_vertex) =
               encodeVertexBlock d data data_end (drop (vertex_offset * vertex_size) vertex_data)
                 block_size vertex_size last_vertex
        in (case r of
              None \<Rightarrow> (d, None, last_vertex)
            | Some data \<Rightarrow>
                encodeV1_blocks d data data_end vertex_data vertex_count vertex_size last_vertex
                  vertex_block_size (vertex_offset + block_size))
      else (d, Some data, last_vertex))"
  by pat_completeness auto
termination
  by (relation "measure (\<lambda>(d, data, data_end, vertex_data, vertex_count, vertex_size,
        last_vertex, vertex_block_size, vertex_offset). vertex_count - vertex_offset)")
    (auto split: if_splits)

text \<open>
  \<open>buffer\<close> is offset 0 of the destination and \<open>data_end\<close> is \<open>buffer_size\<close>. The result is
  the destination and the returned size, 0 for failure.
\<close>

definition encodeV1 :: "dest \<Rightarrow> nat \<Rightarrow> u8 list \<Rightarrow> nat \<Rightarrow> nat \<Rightarrow> dest \<times> nat" where
  "encodeV1 d buffer_size vertex_data vertex_count vertex_size =
     (if \<not> (0 < vertex_size \<and> vertex_size \<le> 256) \<or> vertex_size mod 4 \<noteq> 0 then
        (d\<lparr>aborted := True\<rparr>, 0)
      else
        let data = 0;
            data_end = 0 + buffer_size
        in if size_diff data_end data < 1 + vertex_size then (d, 0)
           else
             let version = gEncodeVertexVersion;
                 d = store d data (word_of_int (uint kVertexHeader OR version));
                 data = data + 1;
                 first_vertex = replicate 256 (0 :: u8);
                 first_vertex = (if 0 < vertex_count
                                 then memcpy_array first_vertex vertex_data vertex_size
                                 else first_vertex);
                 last_vertex = replicate 256 (0 :: u8);
                 last_vertex = memcpy_array last_vertex first_vertex vertex_size;
                 vertex_block_size = getVertexBlockSize vertex_size;
                 (d, r, last_vertex) =
                    encodeV1_blocks d data data_end vertex_data vertex_count vertex_size
                      last_vertex vertex_block_size 0
             in case r of
                  None \<Rightarrow> (d, 0)
                | Some data \<Rightarrow>
                    let tail_size = (if vertex_size < kTailMaxSize then kTailMaxSize
                                     else vertex_size)
                    in if size_diff data_end data < tail_size then (d, 0)
                       else
                         let (d, data) =
                               (if vertex_size < kTailMaxSize then
                                  (memset_dest d data 0 (kTailMaxSize - vertex_size),
                                   data + (kTailMaxSize - vertex_size))
                                else (d, data));
                             d = memcpy_dest d data first_vertex vertex_size;
                             data = data + vertex_size;
                             d = assert_that d (data \<ge> 0 + tail_size);
                             d = assert_that d (data \<le> 0 + buffer_size)
                         in (d, size_diff data 0))"

section \<open>Bit-plane transposition encoder\<close>

text \<open>
  \<^verbatim>\<open>*(unsigned*)p\<close> reads and writes four bytes; the model takes the little-endian
  layout. \<open>encodeNDZ\<close> receives \<open>buffer_size\<close> and never reads it. The
  source's variables \<^verbatim>\<open>last\<close> and \<^verbatim>\<open>mask\<close> are \<open>last_value\<close> and \<open>mask_value\<close> here.
\<close>

definition load32 :: "u8 list \<Rightarrow> nat \<Rightarrow> u32" where
  "load32 m p = ucast (m ! p) OR push_bit 8 (ucast (m ! (p + 1)))
     OR push_bit 16 (ucast (m ! (p + 2))) OR push_bit 24 (ucast (m ! (p + 3)))"

definition store32 :: "dest \<Rightarrow> nat \<Rightarrow> u32 \<Rightarrow> dest" where
  "store32 d p v =
     blit d p [ucast v, ucast (drop_bit 8 v), ucast (drop_bit 16 v), ucast (drop_bit 24 v)]"

function encodeNDZ_deltas ::
  "u8 list \<Rightarrow> nat \<Rightarrow> nat \<Rightarrow> nat \<Rightarrow> nat \<Rightarrow> u32 list \<Rightarrow> u32 \<Rightarrow> nat \<Rightarrow> u32 list \<times> u32" where
  "encodeNDZ_deltas vertices vertex_count vertex_size k i deltas last_value j =
     (if j < 32 \<and> i + j < vertex_count then
        let value = load32 vertices ((i + j) * vertex_size + k);
            value = push_bit 1 value OR drop_bit 31 value;
            delta = value - last_value;
            delta = delta XOR (if drop_bit 31 delta \<noteq> 0 then 0x7fffffff else 0)
        in encodeNDZ_deltas vertices vertex_count vertex_size k i (deltas[j := delta]) value (j + 1)
      else (deltas, last_value))"
  by pat_completeness auto
termination
  by (relation "measure (\<lambda>(vertices, vertex_count, vertex_size, k, i, deltas, last_value, j). 32 - j)")
    auto

declare encodeNDZ_deltas.simps [simp del]

text \<open>The loop over \<open>jc\<close> for one \<open>jr\<close>, on the word \<open>transposed[jr]\<close>.\<close>

function encodeNDZ_row :: "u32 list \<Rightarrow> nat \<Rightarrow> u32 \<Rightarrow> nat \<Rightarrow> u32" where
  "encodeNDZ_row deltas jr t jc =
     (if jc < 32 then
        encodeNDZ_row deltas jr
          (if deltas ! jc AND push_bit jr 1 \<noteq> 0 then t OR push_bit jc 1 else t) (jc + 1)
      else t)"
  by pat_completeness auto
termination
  by (relation "measure (\<lambda>(deltas, jr, t, jc). 32 - jc)") auto

declare encodeNDZ_row.simps [simp del]

function encodeNDZ_transpose :: "u32 list \<Rightarrow> u32 list \<Rightarrow> nat \<Rightarrow> u32 list" where
  "encodeNDZ_transpose deltas transposed jr =
     (if jr < 32 then
        encodeNDZ_transpose deltas
          (transposed[jr := encodeNDZ_row deltas jr (transposed ! jr) 0]) (jr + 1)
      else transposed)"
  by pat_completeness auto
termination
  by (relation "measure (\<lambda>(deltas, transposed, jr). 32 - jr)") auto

declare encodeNDZ_transpose.simps [simp del]

function encodeNDZ_mask :: "u32 list \<Rightarrow> u32 \<Rightarrow> nat \<Rightarrow> u32" where
  "encodeNDZ_mask transposed mask_value j =
     (if j < 32 then
        encodeNDZ_mask transposed
          (if transposed ! j \<noteq> 0 then mask_value OR push_bit j 1 else mask_value) (j + 1)
      else mask_value)"
  by pat_completeness auto
termination
  by (relation "measure (\<lambda>(transposed, mask_value, j). 32 - j)") auto

declare encodeNDZ_mask.simps [simp del]

function encodeNDZ_planes :: "dest \<Rightarrow> nat \<Rightarrow> u32 list \<Rightarrow> nat \<Rightarrow> dest \<times> nat" where
  "encodeNDZ_planes d pos transposed j =
     (if j < 32 then
        (if transposed ! j \<noteq> 0 then
           encodeNDZ_planes (store32 d pos (transposed ! j)) (pos + 4) transposed (j + 1)
         else encodeNDZ_planes d pos transposed (j + 1))
      else (d, pos))"
  by pat_completeness auto
termination
  by (relation "measure (\<lambda>(d, pos, transposed, j). 32 - j)") auto

declare encodeNDZ_planes.simps [simp del]

function encodeNDZ_chunks ::
  "dest \<Rightarrow> nat \<Rightarrow> u8 list \<Rightarrow> nat \<Rightarrow> nat \<Rightarrow> nat \<Rightarrow> u32 \<Rightarrow> nat \<Rightarrow> dest \<times> nat" where
  "encodeNDZ_chunks d pos vertices vertex_count vertex_size k last_value i =
     (if i < vertex_count then
        let (deltas, last_value) =
              encodeNDZ_deltas vertices vertex_count vertex_size k i (replicate 32 0) last_value 0;
            transposed = encodeNDZ_transpose deltas (replicate 32 0) 0;
            mask_value = encodeNDZ_mask transposed 0 0;
            d = store32 d pos mask_value;
            pos = pos + 4;
            (d, pos) = encodeNDZ_planes d pos transposed 0
        in encodeNDZ_chunks d pos vertices vertex_count vertex_size k last_value (i + 32)
      else (d, pos))"
  by pat_completeness auto
termination
  by (relation "measure (\<lambda>(d, pos, vertices, vertex_count, vertex_size, k, last_value, i).
        vertex_count - i)") auto

declare encodeNDZ_chunks.simps [simp del]

function encodeNDZ_channels ::
  "dest \<Rightarrow> nat \<Rightarrow> u8 list \<Rightarrow> nat \<Rightarrow> nat \<Rightarrow> nat \<Rightarrow> dest \<times> nat" where
  "encodeNDZ_channels d pos vertices vertex_count vertex_size k =
     (if k < vertex_size then
        let last_value = 0;
            (d, pos) = encodeNDZ_chunks d pos vertices vertex_count vertex_size k last_value 0
        in encodeNDZ_channels d pos vertices vertex_count vertex_size (k + 4)
      else (d, pos))"
  by pat_completeness auto
termination
  by (relation "measure (\<lambda>(d, pos, vertices, vertex_count, vertex_size, k). vertex_size - k)")
    auto

declare encodeNDZ_channels.simps [simp del]

definition encodeNDZ :: "dest \<Rightarrow> nat \<Rightarrow> u8 list \<Rightarrow> nat \<Rightarrow> nat \<Rightarrow> dest \<times> nat" where
  "encodeNDZ d buffer_size vertices vertex_count vertex_size =
     (let pos = 0;
          (d, pos) = encodeNDZ_channels d pos vertices vertex_count vertex_size 0
      in (d, size_diff pos 0))"

definition spec_field :: "nat \<Rightarrow> u8 \<Rightarrow> u8" where
  "spec_field b v = (if v \<ge> 2 ^ b - 1 then 2 ^ b - 1 else v)"

fun spec_pack :: "nat \<Rightarrow> u8 list \<Rightarrow> u8" where
  "spec_pack b [] = 0"
| "spec_pack b (v # vs) = push_bit (b * length vs) (spec_field b v) OR spec_pack b vs"

definition spec_fixed :: "nat \<Rightarrow> u8 list \<Rightarrow> u8 list" where
  "spec_fixed b g =
     map (\<lambda>j. spec_pack b (take (8 div b) (drop (j * (8 div b)) g))) [0..<16 div (8 div b)]"

definition spec_escapes :: "nat \<Rightarrow> u8 list \<Rightarrow> u8 list" where
  "spec_escapes b g = filter (\<lambda>v. v \<ge> 2 ^ b - 1) g"

definition spec_group :: "nat \<Rightarrow> u8 list \<Rightarrow> u8 list" where
  "spec_group b g =
     (if b = 1 then [] else if b = 8 then g else spec_fixed b g @ spec_escapes b g)"

definition spec_representable :: "nat \<Rightarrow> u8 list \<Rightarrow> bool" where
  "spec_representable b g = (if b = 1 then list_all (\<lambda>v. v = 0) g else True)"

definition spec_try :: "u8 list \<Rightarrow> nat \<Rightarrow> nat \<times> nat \<Rightarrow> nat \<times> nat" where
  "spec_try g b best =
     (if spec_representable b g \<and> length (spec_group b g) < snd best
      then (b, length (spec_group b g)) else best)"

definition spec_select :: "u8 list \<Rightarrow> nat \<times> nat" where
  "spec_select g = spec_try g 4 (spec_try g 2 (spec_try g 1 (8, 16)))"

definition spec_payload :: "u8 list \<Rightarrow> u8 list" where
  "spec_payload g = spec_group (fst (spec_select g)) g"

definition spec_code :: "nat \<Rightarrow> nat" where
  "spec_code b = (if b = 1 then 0 else if b = 2 then 1 else if b = 4 then 2 else 3)"

definition header_set :: "u8 list \<Rightarrow> nat \<Rightarrow> nat \<Rightarrow> nat \<Rightarrow> u8 list" where
  "header_set bs header j c =
     bs[header + j div 4 := bs ! (header + j div 4) OR push_bit ((j mod 4) * 2) (of_nat c)]"

text \<open>The destination after one iteration of the group loop.\<close>

definition step_dest :: "dest \<Rightarrow> nat \<Rightarrow> nat \<Rightarrow> nat \<Rightarrow> u8 list \<Rightarrow> dest" where
  "step_dest d data header j g =
     (let d2 = blit (blit (blit d data g) data (spec_group 2 g)) data (spec_group 4 g);
          hb = header + j div 4;
          d3 = store d2 hb (load d2 hb OR
                 push_bit ((j mod 4) * 2) (of_nat (spec_code (fst (spec_select g)))))
      in blit d3 data (spec_payload g))"

definition group_at :: "u8 list \<Rightarrow> nat \<Rightarrow> u8 list" where
  "group_at buffer k = take 16 (drop (16 * k) buffer)"

definition payloads :: "u8 list \<Rightarrow> nat \<Rightarrow> nat \<Rightarrow> u8 list" where
  "payloads buffer j G = concat (map (\<lambda>k. spec_payload (group_at buffer k)) [j..<G])"

definition headers :: "u8 list \<Rightarrow> nat \<Rightarrow> u8 list \<Rightarrow> nat \<Rightarrow> nat \<Rightarrow> u8 list" where
  "headers bs header buffer j G =
     foldl (\<lambda>bs k. header_set bs header k (spec_code (fst (spec_select (group_at buffer k))))) bs [j..<G]"

definition spec_encodeBytes :: "u8 list \<Rightarrow> nat \<Rightarrow> u8 list" where
  "spec_encodeBytes buffer n =
     (let G = n div 16; hs = (G + 3) div 4
      in headers (replicate hs 0) 0 buffer 0 G @ payloads buffer 0 G)"

definition slot :: "u8 list \<Rightarrow> nat \<Rightarrow> u8" where
  "slot h k = take_bit 2 (drop_bit (2 * (k mod 4)) (h ! (k div 4)))"

definition spec_delta :: "u8 list \<Rightarrow> nat \<Rightarrow> u8 list \<Rightarrow> nat \<Rightarrow> nat \<Rightarrow> u8" where
  "spec_delta vertex_data vertex_size last_vertex k i =
     zigzag8 (vertex_data ! (i * vertex_size + k)
        - (if i = 0 then last_vertex ! k else vertex_data ! ((i - 1) * vertex_size + k)))"

definition spec_deltas :: "u8 list \<Rightarrow> nat \<Rightarrow> nat \<Rightarrow> u8 list \<Rightarrow> nat \<Rightarrow> u8 list" where
  "spec_deltas vertex_data vertex_count vertex_size last_vertex k =
     map (spec_delta vertex_data vertex_size last_vertex k) [0..<vertex_count]"

definition spec_channel_buffer :: "u8 list \<Rightarrow> nat \<Rightarrow> nat \<Rightarrow> u8 list \<Rightarrow> nat \<Rightarrow> u8 list" where
  "spec_channel_buffer vertex_data vertex_count vertex_size last_vertex k =
     spec_deltas vertex_data vertex_count vertex_size last_vertex k
       @ replicate (256 - vertex_count) 0"

definition spec_channels :: "u8 list \<Rightarrow> nat \<Rightarrow> nat \<Rightarrow> u8 list \<Rightarrow> nat \<Rightarrow> u8 list" where
  "spec_channels vertex_data vertex_count vertex_size last_vertex k =
     concat (map (\<lambda>c. spec_encodeBytes
                    (spec_channel_buffer vertex_data vertex_count vertex_size last_vertex c)
                    (16 * ((vertex_count + 15) div 16))) [k..<vertex_size])"

definition spec_block :: "u8 list \<Rightarrow> nat \<Rightarrow> nat \<Rightarrow> u8 list \<Rightarrow> u8 list" where
  "spec_block vertex_data vertex_count vertex_size last_vertex =
     spec_channels vertex_data vertex_count vertex_size last_vertex 0"

fun spec_encode_channels ::
  "dest \<Rightarrow> nat \<Rightarrow> nat \<Rightarrow> u8 list list \<Rightarrow> nat \<Rightarrow> dest \<times> nat option" where
  "spec_encode_channels d data data_end [] n = (d, Some data)"
| "spec_encode_channels d data data_end (b # bs) n =
     (case encodeBytes d data data_end b n of
        (d, None) \<Rightarrow> (d, None)
      | (d, Some data) \<Rightarrow> spec_encode_channels d data data_end bs n)"

definition spec_predictor :: "u8 list \<Rightarrow> nat \<Rightarrow> nat \<Rightarrow> u8 list" where
  "spec_predictor vertex_data vertex_size r =
     take vertex_size (drop (r * vertex_size) vertex_data) @ replicate (256 - vertex_size) 0"

definition spec_block_at :: "u8 list \<Rightarrow> nat \<Rightarrow> nat \<Rightarrow> nat \<Rightarrow> nat \<Rightarrow> u8 list" where
  "spec_block_at vertex_data vertex_count vertex_size block_vertices j =
     spec_block (drop (j * block_vertices * vertex_size) vertex_data)
       (min block_vertices (vertex_count - j * block_vertices)) vertex_size
       (spec_predictor vertex_data vertex_size (if j = 0 then 0 else j * block_vertices - 1))"

definition spec_blocks_from :: "u8 list \<Rightarrow> nat \<Rightarrow> nat \<Rightarrow> nat \<Rightarrow> nat \<Rightarrow> u8 list" where
  "spec_blocks_from vertex_data vertex_count vertex_size block_vertices j =
     concat (map (spec_block_at vertex_data vertex_count vertex_size block_vertices)
       [j..<(vertex_count + block_vertices - 1) div block_vertices])"

definition spec_first_vertex :: "u8 list \<Rightarrow> nat \<Rightarrow> nat \<Rightarrow> u8 list" where
  "spec_first_vertex vertex_data vertex_count vertex_size =
     (if 0 < vertex_count then take vertex_size vertex_data else replicate vertex_size 0)"

definition spec_tail :: "u8 list \<Rightarrow> nat \<Rightarrow> nat \<Rightarrow> u8 list" where
  "spec_tail vertex_data vertex_count vertex_size =
     replicate (32 - vertex_size) 0 @ spec_first_vertex vertex_data vertex_count vertex_size"

definition spec_block_vertices :: "nat \<Rightarrow> nat" where
  "spec_block_vertices vertex_size = min 256 (16 * ((8192 div vertex_size) div 16))"

definition spec_stream :: "u8 list \<Rightarrow> nat \<Rightarrow> nat \<Rightarrow> u8 list" where
  "spec_stream vertex_data vertex_count vertex_size =
     [0xA1] @ spec_blocks_from vertex_data vertex_count vertex_size
                (spec_block_vertices vertex_size) 0
       @ spec_tail vertex_data vertex_count vertex_size"

text \<open>The loop equations are unfolded by hand, one iteration at a time.\<close>

declare encodeBytesGroupZero_from.simps [simp del]
declare encodeBytesGroupTry_pack.simps [simp del]
declare encodeBytesGroupTry_fixed.simps [simp del]
declare encodeBytesGroupTry_escapes.simps [simp del]
declare encodeBytes_bits.simps [simp del]
declare encodeBytes_groups.simps [simp del]
declare encodeVertexBlock_deltas.simps [simp del]
declare encodeVertexBlock_channels.simps [simp del]
declare encodeV1_blocks.simps [simp del]

section \<open>Zigzag round trip\<close>

lemma u8_all:
  assumes "list_all (\<lambda>n. P (of_nat n :: u8)) [0..<256]"
  shows "P w"
proof -
  have "unat w < 256"
    using unsigned_less [of w, where ?'a = nat] by simp
  moreover from assms have "\<forall>n < 256. P (of_nat n :: u8)"
    unfolding list_all_iff by simp
  ultimately have "P (of_nat (unat w))"
    by blast
  then show ?thesis by simp
qed

lemma unzigzag8_zigzag8: "unzigzag8 (zigzag8 d) = d"
  by (rule u8_all [of _ d]) code_simp

lemma zigzag8_unzigzag8: "zigzag8 (unzigzag8 v) = v"
  by (rule u8_all [of _ v]) code_simp

text \<open>
  C8. For every byte \<open>d\<close>, applying the inverse map \<^verbatim>\<open>(v >> 1) XOR -(v & 1)\<close> to
  \<open>zigzag8 d\<close> recovers \<open>d\<close>, and \<open>zigzag8\<close> is a bijection on bytes.
\<close>

theorem zigzag8_round_trip:
  "unzigzag8 (zigzag8 d) = d \<and> bij zigzag8"
proof
  show "unzigzag8 (zigzag8 d) = d" by (rule unzigzag8_zigzag8)
  show "bij zigzag8"
    by (rule bij_betw_byWitness [where f' = unzigzag8])
      (simp_all add: unzigzag8_zigzag8 zigzag8_unzigzag8)
qed

lemma store_in: "p < length (bytes d) \<Longrightarrow> store d p v = d\<lparr>bytes := (bytes d)[p := v]\<rparr>"
  by (simp add: store_def)

lemma blit_append: "blit d p (xs @ ys) = blit (blit d p xs) (p + length xs) ys"
  by (induction xs arbitrary: d p) simp_all

lemma blit_in:
  "p + length xs \<le> length (bytes d) \<Longrightarrow>
   blit d p xs = d\<lparr>bytes := take p (bytes d) @ xs @ drop (p + length xs) (bytes d)\<rparr>"
proof (induction xs arbitrary: d p)
  case Nil
  then show ?case by simp
next
  case (Cons x xs)
  have p: "p < length (bytes d)" using Cons.prems by simp
  have "blit (store d p x) (p + 1) xs =
    (store d p x)\<lparr>bytes := take (p + 1) (bytes (store d p x)) @ xs @
       drop (p + 1 + length xs) (bytes (store d p x))\<rparr>"
    using Cons.prems by (intro Cons.IH) (simp add: store_def)
  then show ?case using p
    by (simp add: store_def take_Suc_conv_app_nth)
qed

lemma size_diff_le: "b \<le> a \<Longrightarrow> a < 2 ^ 64 \<Longrightarrow> size_diff a b = a - b"
proof -
  assume ba: "b \<le> a" and a: "a < 2 ^ 64"
  have e: "int a - int b = int (a - b)" using ba by (rule of_nat_diff [symmetric])
  have "a - b < 2 ^ 64" using a by (rule less_imp_diff_less)
  then have "int (a - b) < int (2 ^ 64)" by (rule iffD2 [OF of_nat_less_iff])
  then have "int (a - b) < 2 ^ 64" by (simp only: of_nat_power of_nat_numeral)
  then have "int (a - b) mod 2 ^ 64 = int (a - b)"
    by (intro mod_pos_pos_trivial) (rule of_nat_0_le_iff)
  then show ?thesis unfolding size_diff_def e by (simp only: nat_int)
qed

lemma map_nth_upt: "n \<le> length xs \<Longrightarrow> map ((!) xs) [0..<n] = take n xs"
  by (rule nth_equalityI) simp_all

lemma zero_from: "i \<le> 16 \<Longrightarrow>
  encodeBytesGroupZero_from buffer i = list_all (\<lambda>v. v = 0) (map ((!) buffer) [i..<16])"
proof (induction buffer i rule: encodeBytesGroupZero_from.induct)
  case (1 buffer i)
  show ?case
  proof (cases "i < 16")
    case True
    then have u: "[i..<16] = i # [i + 1..<16]" by (simp add: upt_conv_Cons)
    show ?thesis
      using True 1
      by (subst encodeBytesGroupZero_from.simps) (simp add: kByteGroupSize_def u)
  next
    case False
    then show ?thesis
      by (subst encodeBytesGroupZero_from.simps) (simp add: kByteGroupSize_def)
  qed
qed

lemma encodeBytesGroupZero_eq:
  "16 \<le> length buffer \<Longrightarrow> encodeBytesGroupZero buffer = list_all (\<lambda>v. v = 0) (take 16 buffer)"
  unfolding encodeBytesGroupZero_def
  by (subst zero_from, simp, subst map_nth_upt, simp_all)

lemma escapes_from: "i \<le> 16 \<Longrightarrow>
  encodeBytesGroupTry_escapes d data buffer s i =
    (blit d data (filter (\<lambda>v. v \<ge> s) (map ((!) buffer) [i..<16])),
     data + length (filter (\<lambda>v. v \<ge> s) (map ((!) buffer) [i..<16])))"
proof (induction d data buffer s i rule: encodeBytesGroupTry_escapes.induct)
  case (1 d data buffer s i)
  show ?case
  proof (cases "i < 16")
    case True
    then have u: "[i..<16] = i # [i + 1..<16]" by (simp add: upt_conv_Cons)
    show ?thesis
      using True 1
      by (subst encodeBytesGroupTry_escapes.simps) (simp add: kByteGroupSize_def u)
  next
    case False
    then show ?thesis
      by (subst encodeBytesGroupTry_escapes.simps) (simp add: kByteGroupSize_def)
  qed
qed

lemma escapes_eq: "16 \<le> length buffer \<Longrightarrow>
  encodeBytesGroupTry_escapes d data buffer (2 ^ b - 1) 0 =
    (blit d data (spec_escapes b (take 16 buffer)),
     data + length (spec_escapes b (take 16 buffer)))"
  unfolding spec_escapes_def
  by (subst escapes_from, simp, subst map_nth_upt, simp, subst map_nth_upt, simp_all)

lemma sentinel_eq: "(word_of_int (push_bit bits 1 - 1) :: u8) = 2 ^ bits - 1"
  by (simp add: push_bit_eq_mult)

lemma map_nth_drop: "i + n \<le> length xs \<Longrightarrow> map (\<lambda>t. xs ! (i + t)) [0..<n] = take n (drop i xs)"
  by (rule nth_equalityI) simp_all

lemma pack_from: "k \<le> bs \<Longrightarrow>
  encodeBytesGroupTry_pack buffer bits (2 ^ bits - 1) bs i k byte =
    push_bit (bits * (bs - k)) byte OR spec_pack bits (map (\<lambda>t. buffer ! (i + t)) [k..<bs])"
proof (induction buffer bits "2 ^ bits - 1 :: u8" bs i k byte rule: encodeBytesGroupTry_pack.induct)
  case (1 buffer bits bs i k byte)
  show ?case
  proof (cases "k < bs")
    case True
    then have u: "[k..<bs] = k # [k + 1..<bs]" by (simp add: upt_conv_Cons)
    have e: "bs - k = Suc (bs - (k + 1))" using True by simp
    show ?thesis
      using True 1
      apply (subst encodeBytesGroupTry_pack.simps)
      apply (simp add: u spec_field_def Let_def push_bit_or push_bit_push_bit)
      apply (simp add: e ac_simps push_bit_push_bit)
      done
  next
    case False
    then show ?thesis using 1(2)
      by (subst encodeBytesGroupTry_pack.simps) simp
  qed
qed

lemma pack_eq: "i + bs \<le> length buffer \<Longrightarrow>
  encodeBytesGroupTry_pack buffer bits (2 ^ bits - 1) bs i 0 0 =
    spec_pack bits (take bs (drop i buffer))"
  by (subst pack_from, simp, subst map_nth_drop, simp_all)

lemma fixed_from:
  "0 < bs \<Longrightarrow> 16 = m * bs \<Longrightarrow> 16 \<le> length buffer \<Longrightarrow> i = j * bs \<Longrightarrow> j \<le> m \<Longrightarrow>
    encodeBytesGroupTry_fixed d data buffer bits (2 ^ bits - 1) bs i =
      (blit d data (map (\<lambda>j. spec_pack bits (take bs (drop (j * bs) buffer))) [j..<m]),
       data + (m - j))"
proof (induction d data buffer bits "2 ^ bits - 1 :: u8" bs i arbitrary: j
    rule: encodeBytesGroupTry_fixed.induct)
  case (1 d data buffer bits bs i)
  note bs = \<open>0 < bs\<close> and m = \<open>16 = m * bs\<close> and len = \<open>16 \<le> length buffer\<close>
    and i = \<open>i = j * bs\<close> and jm = \<open>j \<le> m\<close>
  show ?case
  proof (cases "j < m")
    case True
    then have u: "[j..<m] = j # [j + 1..<m]" by (simp add: upt_conv_Cons)
    have "Suc j * bs \<le> m * bs" using True by (intro mult_le_mono1) simp
    then have "j * bs + bs \<le> m * bs" by simp
    then have il: "i + bs \<le> 16" unfolding i m [symmetric] .
    then have c: "i < kByteGroupSize \<and> 0 < bs" using bs by (simp add: kByteGroupSize_def)
    define byte where "byte = spec_pack bits (take bs (drop i buffer))"
    have p: "encodeBytesGroupTry_pack buffer bits (2 ^ bits - 1) bs i 0 0 = byte"
      unfolding byte_def using il len by (intro pack_eq) simp
    have "encodeBytesGroupTry_fixed d data buffer bits (2 ^ bits - 1) bs i =
      encodeBytesGroupTry_fixed (store d data byte) (data + 1) buffer bits (2 ^ bits - 1) bs
        (i + bs)"
      by (subst encodeBytesGroupTry_fixed.simps) (simp add: c p Let_def)
    also have "\<dots> = (blit (store d data byte) (data + 1)
          (map (\<lambda>j. spec_pack bits (take bs (drop (j * bs) buffer))) [j + 1..<m]),
       data + 1 + (m - (j + 1)))"
      using True i by (intro 1(1) [OF c refl bs m len, unfolded p]) simp_all
    also have "\<dots> = (blit d data
          (map (\<lambda>j. spec_pack bits (take bs (drop (j * bs) buffer))) [j..<m]),
       data + (m - j))"
      using True by (simp add: u byte_def i del: upt_Suc)
    finally show ?thesis .
  next
    case False
    with jm have "j = m" by simp
    then have "\<not> i < kByteGroupSize" using i m by (simp add: kByteGroupSize_def)
    then show ?thesis using \<open>j = m\<close>
      by (subst encodeBytesGroupTry_fixed.simps) simp
  qed
qed

lemma spec_fixed_length: "length (spec_fixed b g) = 16 div (8 div b)"
  by (simp add: spec_fixed_def)

lemma take_drop_take: "i + n \<le> m \<Longrightarrow> take n (drop i (take m xs)) = take n (drop i xs)"
  by (simp add: drop_take min_def)

lemma fixed_eq:
  assumes "b = 2 \<or> b = 4" "16 \<le> length buffer"
  shows "encodeBytesGroupTry_fixed d data buffer b (2 ^ b - 1) (8 div b) 0 =
      (blit d data (spec_fixed b (take 16 buffer)), data + 16 div (8 div b))"
proof -
  define bs where "bs = 8 div b"
  define m where "m = 16 div bs"
  have bs: "0 < bs" "16 = m * bs" using assms(1) by (auto simp: bs_def m_def)
  have me: "map (\<lambda>j. spec_pack b (take bs (drop (j * bs) buffer))) [0..<m] =
        map (\<lambda>j. spec_pack b (take bs (drop (j * bs) (take 16 buffer)))) [0..<m]"
  proof (rule map_cong [OF refl])
    fix j assume "j \<in> set [0..<m]"
    then have "Suc j * bs \<le> m * bs" by (intro mult_le_mono1) simp
    then have "j * bs + bs \<le> 16" using bs by simp
    then show "spec_pack b (take bs (drop (j * bs) buffer)) =
       spec_pack b (take bs (drop (j * bs) (take 16 buffer)))"
      by (simp only: take_drop_take)
  qed
  have "encodeBytesGroupTry_fixed d data buffer b (2 ^ b - 1) bs 0 =
      (blit d data (map (\<lambda>j. spec_pack b (take bs (drop (j * bs) buffer))) [0..<m]),
       data + (m - 0))"
    by (rule fixed_from [OF bs assms(2)]) simp_all
  then show ?thesis
    unfolding spec_fixed_def bs_def [symmetric] m_def [symmetric] me by simp
qed

lemma encodeBytesGroupTry_24:
  assumes "b = 2 \<or> b = 4" "16 \<le> length buffer"
  shows "encodeBytesGroupTry d data buffer b =
    (blit d data (spec_group b (take 16 buffer)),
     Some (data + length (spec_group b (take 16 buffer))))"
proof -
  have b: "1 \<le> b \<and> b \<le> 8" "b \<noteq> 1" "b \<noteq> 8" "kByteGroupSize mod (8 div b) = 0"
    using assms(1) by (auto simp: kByteGroupSize_def)
  show ?thesis
    unfolding encodeBytesGroupTry_def sentinel_eq
    using b
    by (simp add: assert_that_def Let_def fixed_eq [OF assms] escapes_eq [OF assms(2)]
        spec_group_def blit_append spec_fixed_length)
qed

lemma encodeBytesGroupTry_8:
  "encodeBytesGroupTry d data buffer 8 =
    (blit d data (spec_group 8 (take 16 buffer)), Some (data + 16))"
  by (simp add: encodeBytesGroupTry_def memcpy_dest_def spec_group_def kByteGroupSize_def)

lemma encodeBytesGroupTry_1:
  "16 \<le> length buffer \<Longrightarrow> encodeBytesGroupTry d data buffer 1 =
    (d, if spec_representable 1 (take 16 buffer) then Some data else None)"
  by (simp add: encodeBytesGroupTry_def encodeBytesGroupZero_eq spec_representable_def)

lemma le_mask_take_bit: "w \<le> mask b \<Longrightarrow> take_bit b w = (w :: u8)"
proof -
  assume "w \<le> mask b"
  then have "uint w \<le> uint (mask b :: u8)" by (simp add: word_le_def)
  also have "\<dots> = mask (min 8 b)" by (simp add: uint_mask_eq)
  also have "\<dots> < (2 :: int) ^ (min 8 b)" by (simp add: mask_eq_exp_minus_1)
  also have "\<dots> \<le> 2 ^ b" by (rule power_increasing) simp_all
  finally have "w AND mask b = w" by (simp add: mask_eq_iff)
  then show ?thesis by (simp add: take_bit_eq_mask)
qed

lemma spec_field_bits: "bit (spec_field b v) n \<Longrightarrow> n < b"
proof (rule ccontr)
  assume a: "bit (spec_field b v) n" and "\<not> n < b"
  then have bn: "b \<le> n" by simp
  have "spec_field b v \<le> mask b"
    by (auto simp add: spec_field_def mask_eq_exp_minus_1)
  then have "take_bit b (spec_field b v) = spec_field b v"
    by (rule le_mask_take_bit)
  then have "bit (take_bit b (spec_field b v)) n" using a by simp
  then show False using bn by (simp add: bit_take_bit_iff)
qed

lemma spec_pack_bit: "0 < b \<Longrightarrow>
  bit (spec_pack b vs) n \<longleftrightarrow>
    n < 8 \<and> n < b * length vs \<and> bit (spec_field b (vs ! (length vs - 1 - n div b))) (n mod b)"
proof (induction vs)
  case Nil
  then show ?case by simp
next
  case (Cons v vs)
  show ?case
  proof (cases "n < b * length vs")
    case True
    then have "n div b < length vs" using Cons.prems
      by (simp add: less_mult_imp_div_less mult.commute)
    then have e: "(v # vs) ! (length (v # vs) - 1 - n div b) = vs ! (length vs - 1 - n div b)"
      by (simp add: nth_Cons')
    have "n < b * length (v # vs)" using True by simp
    then show ?thesis using True Cons unfolding e
      by (auto simp add: bit_or_iff bit_push_bit_iff dest: bit_imp_le_length)
  next
    case False
    then have ge: "b * length vs \<le> n" by simp
    then have "length vs \<le> n div b" using Cons.prems
      by (metis div_le_mono nonzero_mult_div_cancel_left less_numeral_extra(3))
    then have e: "(v # vs) ! (length (v # vs) - 1 - n div b) = v" by simp
    have np: "\<not> bit (spec_pack b vs) n" using False Cons by simp
    show ?thesis
    proof (cases "n < b * length (v # vs)")
      case True
      then have "n div b = length vs" using ge Cons.prems
        by (metis \<open>length vs \<le> n div b\<close> le_antisym length_Cons less_Suc_eq_le less_mult_imp_div_less mult.commute)
      then have "n - b * length vs = n mod b"
        by (metis minus_mult_div_eq_mod)
      then show ?thesis using True np ge unfolding e
        by (auto simp add: bit_or_iff bit_push_bit_iff dest: bit_imp_le_length)
    next
      case False
      then have "b \<le> n - b * length vs" by simp
      then have "\<not> bit (spec_field b v) (n - b * length vs)"
        using spec_field_bits by fastforce
      then show ?thesis using False np
        by (auto simp add: bit_or_iff bit_push_bit_iff)
    qed
  qed
qed

lemma spec_pack_field:
  assumes "0 < b" "b * length vs \<le> 8" "t < length vs"
  shows "take_bit b (drop_bit (b * (length vs - 1 - t)) (spec_pack b vs)) = spec_field b (vs ! t)"
proof (rule bit_word_eqI)
  fix n assume "n < LENGTH(8)"
  have d: "(b * (length vs - 1 - t) + n) div b = length vs - 1 - t" if "n < b"
    using that assms(1) by simp
  have m: "(b * (length vs - 1 - t) + n) mod b = n" if "n < b"
    using that by simp
  have l: "b * (length vs - 1 - t) + n < b * length vs" if "n < b"
  proof -
    have "b * (length vs - 1 - t) + n < b * (length vs - 1 - t) + b" using that by simp
    also have "\<dots> = b * Suc (length vs - 1 - t)" by simp
    also have "\<dots> \<le> b * length vs" using assms(3) by (intro mult_le_mono2) simp
    finally show ?thesis .
  qed
  have i: "length vs - 1 - (length vs - 1 - t) = t" using assms(3) by simp
  show "bit (take_bit b (drop_bit (b * (length vs - 1 - t)) (spec_pack b vs))) n
      \<longleftrightarrow> bit (spec_field b (vs ! t)) n"
  proof (cases "n < b")
    case True
    have "b * (length vs - 1 - t) + n < 8" using l [OF True] assms(2) by simp
    then show ?thesis
      using True assms l [OF True] d [OF True] m [OF True] i
      by (simp add: bit_take_bit_iff bit_drop_bit_eq spec_pack_bit)
  next
    case False
    then show ?thesis using spec_field_bits [of b "vs ! t" n]
      by (auto simp add: bit_take_bit_iff)
  qed
qed

lemma encodeBytesGroupTry_eq:
  assumes "b = 1 \<or> b = 2 \<or> b = 4 \<or> b = 8" "16 \<le> length buffer"
  shows "encodeBytesGroupTry d data buffer b =
    (blit d data (spec_group b (take 16 buffer)),
     if spec_representable b (take 16 buffer)
     then Some (data + length (spec_group b (take 16 buffer))) else None)"
proof -
  consider "b = 1" | "b = 2 \<or> b = 4" | "b = 8" using assms(1) by blast
  then show ?thesis
  proof cases
    case 1
    show ?thesis unfolding 1 using encodeBytesGroupTry_1 [OF assms(2), of d data]
      by (simp add: spec_group_def)
  next
    case 2
    then have "spec_representable b (take 16 buffer)" by (auto simp: spec_representable_def)
    then show ?thesis using 2 assms(2) by (simp add: encodeBytesGroupTry_24)
  next
    case 3
    then show ?thesis using assms(2)
      by (simp add: encodeBytesGroupTry_8 spec_group_def spec_representable_def)
  qed
qed

lemma spec_group_length:
  "length g = 16 \<Longrightarrow> length (spec_group b g) \<le> (if b = 1 then 0 else if b = 8 then 16 else 16 + 16 div (8 div b))"
  by (simp add: spec_group_def spec_fixed_def spec_escapes_def add.commute add_le_mono
      order_trans [OF length_filter_le])

lemma spec_group_length_24:
  assumes "length g = 16" "b = 1 \<or> b = 2 \<or> b = 4 \<or> b = 8"
  shows "length (spec_group b g) \<le> 24"
  using spec_group_length [OF assms(1), of b] assms(2) by auto

lemma size_diff_add: "data + n < 2 ^ 64 \<Longrightarrow> size_diff (data + n) data = n"
  using size_diff_le [of data "data + n"] by simp

lemma spec_select_cases: "fst (spec_select g) \<in> {1, 2, 4, 8}"
  by (simp add: spec_select_def spec_try_def)

lemma spec_select_snd:
  "length g = 16 \<Longrightarrow> snd (spec_select g) = length (spec_group (fst (spec_select g)) g)"
  by (simp add: spec_select_def spec_try_def spec_group_def)

lemma spec_select_representable: "spec_representable (fst (spec_select g)) g"
  by (simp add: spec_select_def spec_try_def) (simp add: spec_representable_def)

lemma bits_step:
  assumes "b = 1 \<or> b = 2 \<or> b = 4" "16 \<le> length buffer" "data + 24 < 2 ^ 64"
  shows "encodeBytes_bits d data buffer b bb bs =
     encodeBytes_bits (blit d data (spec_group b (take 16 buffer))) data buffer (b * 2)
       (fst (spec_try (take 16 buffer) b (bb, bs))) (snd (spec_try (take 16 buffer) b (bb, bs)))"
proof -
  have c: "b < 8 \<and> 0 < b" using assms(1) by auto
  have l: "length (spec_group b (take 16 buffer)) \<le> 24"
    using assms(1,2) by (intro spec_group_length_24) auto
  then have "data + length (spec_group b (take 16 buffer)) < 2 ^ 64"
    using assms(3) by (rule_tac le_less_trans [of _ "data + 24"]) simp_all
  then have s: "size_diff (data + length (spec_group b (take 16 buffer))) data =
      length (spec_group b (take 16 buffer))"
    by (rule size_diff_add)
  have t: "encodeBytesGroupTry d data buffer b =
    (blit d data (spec_group b (take 16 buffer)),
     if spec_representable b (take 16 buffer)
     then Some (data + length (spec_group b (take 16 buffer))) else None)"
    using assms(1,2) by (intro encodeBytesGroupTry_eq) auto
  show ?thesis
    by (subst encodeBytes_bits.simps) (simp add: c t s spec_try_def)
qed

lemma bits_stop: "encodeBytes_bits d data buffer 8 bb bs = (d, bb, bs)"
  by (subst encodeBytes_bits.simps) simp

lemma encodeBytes_best_eq:
  assumes "16 \<le> length buffer" "data + 24 < 2 ^ 64"
  shows "encodeBytes_best d data buffer =
    (blit (blit (blit d data (take 16 buffer)) data (spec_group 2 (take 16 buffer))) data
       (spec_group 4 (take 16 buffer)),
     spec_select (take 16 buffer))"
proof -
  have "data + 16 < 2 ^ 64" using assms(2) by (rule_tac le_less_trans [of _ "data + 24"]) simp_all
  then have s: "size_diff (data + 16) data = 16" by (rule size_diff_add)
  show ?thesis
    unfolding encodeBytes_best_def
    by (simp add: encodeBytesGroupTry_8 s bits_step [OF _ assms] bits_stop spec_select_def
        spec_group_def [of "Suc 0"] spec_group_def [of 8])
qed

lemma store_length [simp]: "length (bytes (store d p v)) = length (bytes d)"
  by (simp add: store_def)

lemma store_aborted [simp]: "aborted (store d p v) = aborted d"
  by (simp add: store_def)

lemma blit_length [simp]: "length (bytes (blit d p xs)) = length (bytes d)"
  by (induction xs arbitrary: d p) simp_all

lemma blit_aborted [simp]: "aborted (blit d p xs) = aborted d"
  by (induction xs arbitrary: d p) simp_all

lemma blit_bytes:
  "p + length xs \<le> length (bytes d) \<Longrightarrow>
   bytes (blit d p xs) = take p (bytes d) @ xs @ drop (p + length xs) (bytes d)"
  by (subst blit_in) simp_all

lemma blit_overrun: "p + length xs \<le> length (bytes d) \<Longrightarrow> overrun (blit d p xs) = overrun d"
  by (subst blit_in) simp_all

lemma blit_take:
  "p + length xs \<le> length (bytes d) \<Longrightarrow> q \<le> p \<Longrightarrow> take q (bytes (blit d p xs)) = take q (bytes d)"
proof -
  assume a: "p + length xs \<le> length (bytes d)" "q \<le> p"
  then have "p \<le> length (bytes d)" by simp
  then show ?thesis using a by (simp add: blit_bytes)
qed

lemma blit_content:
  "p + length xs \<le> length (bytes d) \<Longrightarrow>
   take (p + length xs) (bytes (blit d p xs)) = take p (bytes d) @ xs"
proof -
  assume a: "p + length xs \<le> length (bytes d)"
  then have "p \<le> length (bytes d)" by simp
  then show ?thesis using a by (simp add: blit_bytes)
qed

lemma groups_step:
  assumes "i < buffer_size" "i + 16 \<le> length buffer" "data + 24 \<le> data_end"
    "data_end < 2 ^ 64"
  shows "encodeBytes_groups d data data_end buffer buffer_size header i =
     encodeBytes_groups (step_dest d data header (i div 16) (take 16 (drop i buffer)))
       (data + length (spec_payload (take 16 (drop i buffer)))) data_end buffer buffer_size
       header (i + 16)"
proof -
  define g where "g = take 16 (drop i buffer)"
  have lg: "length g = 16" "16 \<le> length (drop i buffer)" using assms(2) by (simp_all add: g_def)
  have d64: "data + 24 < 2 ^ 64" using assms(3,4) by (rule le_less_trans)
  have "data \<le> data_end" using assms(3) by simp
  then have sd: "size_diff data_end data = data_end - data" using assms(4) by (rule size_diff_le)
  have chk: "\<not> size_diff data_end data < kByteGroupDecodeLimit"
    unfolding sd kByteGroupDecodeLimit_def using assms(3) by simp
  have best: "encodeBytes_best d data (drop i buffer) =
    (blit (blit (blit d data g) data (spec_group 2 g)) data (spec_group 4 g), spec_select g)"
    unfolding g_def using lg(2) d64 by (rule encodeBytes_best_eq)
  obtain bb bs where sel: "spec_select g = (bb, bs)" by (cases "spec_select g")
  have bb: "bb = 1 \<or> bb = 2 \<or> bb = 4 \<or> bb = 8" using spec_select_cases [of g] sel by simp
  have bs: "bs = length (spec_group bb g)" using spec_select_snd [OF lg(1)] sel by simp
  have rep: "spec_representable bb g" using spec_select_representable [of g] sel by simp
  have code: "2 ^ spec_code bb = bb" using bb by (auto simp: spec_code_def)
  have tr: "encodeBytesGroupTry d' data (drop i buffer) bb =
    (blit d' data (spec_group bb g), Some (data + length (spec_group bb g)))" for d'
    using encodeBytesGroupTry_eq [OF bb lg(2), of d' data] rep by (simp add: g_def)
  show ?thesis
    apply (subst encodeBytes_groups.simps)
    apply (simp only: assms(1) chk if_True if_False best sel Let_def prod.case g_def [symmetric]
        spec_code_def [symmetric])
    apply (simp add: tr bs code assert_that_def step_dest_def Let_def sel spec_payload_def
        kByteGroupSize_def)
    done
qed

lemma groups_fail:
  assumes "i < buffer_size" "data \<le> data_end" "data_end < data + 24" "data_end < 2 ^ 64"
  shows "encodeBytes_groups d data data_end buffer buffer_size header i = (d, None)"
proof -
  have sd: "size_diff data_end data = data_end - data" using assms(2,4) by (rule size_diff_le)
  have chk: "size_diff data_end data < kByteGroupDecodeLimit"
    unfolding sd kByteGroupDecodeLimit_def using assms(2,3) by simp
  show ?thesis
    by (subst encodeBytes_groups.simps) (simp only: assms(1) chk if_True)
qed

lemma groups_done:
  "\<not> i < buffer_size \<Longrightarrow>
   encodeBytes_groups d data data_end buffer buffer_size header i = (d, Some data)"
  by (subst encodeBytes_groups.simps) simp

lemma store_bytes: "p < length (bytes d) \<Longrightarrow> bytes (store d p v) = (bytes d)[p := v]"
  by (simp add: store_def)

lemma store_overrun: "p < length (bytes d) \<Longrightarrow> overrun (store d p v) = overrun d"
  by (simp add: store_def)

lemma spec_payload_length: "length g = 16 \<Longrightarrow> length (spec_payload g) \<le> 24"
  unfolding spec_payload_def using spec_select_cases [of g]
  by (intro spec_group_length_24) auto

lemma step_dest_props:
  assumes room: "data + 24 \<le> length (bytes d)" and hb: "header + j div 4 < data"
    and lg: "length g = 16"
  defines "d' \<equiv> step_dest d data header j g"
  shows "length (bytes d') = length (bytes d)"
    and "aborted d' = aborted d"
    and "overrun d' = overrun d"
    and "take data (bytes d') =
           header_set (take data (bytes d)) header j (spec_code (fst (spec_select g)))"
    and "take (data + length (spec_payload g)) (bytes d') =
           header_set (take data (bytes d)) header j (spec_code (fst (spec_select g)))
             @ spec_payload g"
proof -
  define d1 where "d1 = blit d data g"
  define d2 where "d2 = blit (blit d1 data (spec_group 2 g)) data (spec_group 4 g)"
  define v where "v = load d2 (header + j div 4) OR
     push_bit ((j mod 4) * 2) (of_nat (spec_code (fst (spec_select g))))"
  define d3 where "d3 = store d2 (header + j div 4) v"
  have d': "d' = blit d3 data (spec_payload g)"
    by (simp add: d'_def step_dest_def d3_def v_def d2_def d1_def Let_def)
  have l2: "length (spec_group 2 g) \<le> 24" and l4: "length (spec_group 4 g) \<le> 24"
    using lg by (simp_all add: spec_group_length_24)
  have lp: "length (spec_payload g) \<le> 24" using lg by (rule spec_payload_length)
  have r1: "data + length g \<le> length (bytes d)" using room lg by simp
  have r2: "data + length (spec_group 2 g) \<le> length (bytes d1)"
    using room l2 by (simp add: d1_def)
  have r4: "data + length (spec_group 4 g) \<le> length (bytes (blit d1 data (spec_group 2 g)))"
    using room l4 by (simp add: d1_def)
  have rp: "data + length (spec_payload g) \<le> length (bytes d3)"
    using room lp by (simp add: d3_def d2_def d1_def)
  have hbl: "header + j div 4 < length (bytes d2)"
    using room hb by (simp add: d2_def d1_def)
  have t2: "take data (bytes d2) = take data (bytes d)"
    unfolding d2_def using r1 r2 r4 by (simp add: blit_take d1_def)
  have "bytes d2 ! (header + j div 4) = take data (bytes d2) ! (header + j div 4)"
    using hb by simp
  then have ld: "load d2 (header + j div 4) = take data (bytes d) ! (header + j div 4)"
    unfolding t2 by (simp add: load_def)
  have t3: "take data (bytes d3) =
      header_set (take data (bytes d)) header j (spec_code (fst (spec_select g)))"
    unfolding d3_def store_bytes [OF hbl] take_update_swap t2 v_def ld header_set_def ..
  show "length (bytes d') = length (bytes d)"
    by (simp add: d' d3_def d2_def d1_def)
  show "aborted d' = aborted d"
    by (simp add: d' d3_def d2_def d1_def)
  have "overrun d2 = overrun d"
    unfolding d2_def using r1 r2 r4 by (simp add: blit_overrun d1_def)
  then have "overrun d3 = overrun d"
    unfolding d3_def using hbl by (simp add: store_overrun)
  then show "overrun d' = overrun d"
    unfolding d' using rp by (simp add: blit_overrun)
  show "take data (bytes d') =
       header_set (take data (bytes d)) header j (spec_code (fst (spec_select g)))"
    unfolding d' using rp by (simp add: blit_take t3)
  show "take (data + length (spec_payload g)) (bytes d') =
       header_set (take data (bytes d)) header j (spec_code (fst (spec_select g)))
         @ spec_payload g"
    unfolding d' using rp by (simp add: blit_content t3)
qed

lemma header_set_length [simp]: "length (header_set bs header j c) = length bs"
  by (simp add: header_set_def)

lemma header_set_append:
  "header + j div 4 < length xs \<Longrightarrow> header_set (xs @ ys) header j c = header_set xs header j c @ ys"
  by (simp add: header_set_def list_update_append nth_append)

lemma header_set_take: "take header (header_set bs header j c) = take header bs"
  by (simp add: header_set_def)

lemma headers_length [simp]: "length (headers bs header buffer j G) = length bs"
proof -
  have "length (foldl (\<lambda>bs k. header_set bs header k (f k)) bs ks) = length bs" for f ks
    by (induction ks arbitrary: bs) simp_all
  then show ?thesis unfolding headers_def .
qed

lemma headers_append:
  assumes "header + (G + 3) div 4 \<le> length xs"
  shows "headers (xs @ ys) header buffer j G = headers xs header buffer j G @ ys"
proof -
  have "\<forall>k \<in> set ks. k < G \<Longrightarrow> header + (G + 3) div 4 \<le> length xs \<Longrightarrow>
    foldl (\<lambda>bs k. header_set bs header k (f k)) (xs @ ys) ks =
    foldl (\<lambda>bs k. header_set bs header k (f k)) xs ks @ ys" for f ks xs
  proof (induction ks arbitrary: xs)
    case Nil
    then show ?case by simp
  next
    case (Cons k ks)
    have "k < G" using Cons.prems(1) by simp
    then have "header + k div 4 < length xs" using Cons.prems(2) by simp
    then show ?case using Cons by (simp add: header_set_append)
  qed
  then show ?thesis unfolding headers_def using assms by simp
qed

lemma headers_step: "j < G \<Longrightarrow>
  headers bs header buffer j G =
    headers (header_set bs header j (spec_code (fst (spec_select (group_at buffer j))))) header buffer (Suc j) G"
  by (simp add: headers_def upt_conv_Cons)

lemma headers_take: "take header (headers bs header buffer j G) = take header bs"
proof -
  have "take header (foldl (\<lambda>bs k. header_set bs header k (f k)) bs ks) = take header bs" for f ks
    by (induction ks arbitrary: bs) (simp_all add: header_set_take)
  then show ?thesis unfolding headers_def .
qed

lemma payloads_step: "j < G \<Longrightarrow> payloads buffer j G = spec_payload (group_at buffer j) @ payloads buffer (Suc j) G"
  by (simp add: payloads_def upt_conv_Cons)

lemma payloads_done [simp]: "payloads buffer G G = []"
  by (simp add: payloads_def)

lemma headers_done [simp]: "headers bs header buffer G G = bs"
  by (simp add: headers_def)

lemma groups_loop:
  assumes "16 * G \<le> length buffer" "data_end < 2 ^ 64"
  shows "G - j = n \<Longrightarrow> j \<le> G \<Longrightarrow> length (bytes d) = data_end \<Longrightarrow>
    header + (G + 3) div 4 \<le> data \<Longrightarrow> data \<le> data_end \<Longrightarrow>
    encodeBytes_groups d data data_end buffer (16 * G) header (16 * j) = (d', r) \<Longrightarrow>
    (length (bytes d') = length (bytes d) \<and> aborted d' = aborted d \<and> overrun d' = overrun d
       \<and> take header (bytes d') = take header (bytes d)) \<and>
    (\<forall>p. r = Some p \<longrightarrow> p = data + length (payloads buffer j G) \<and> p \<le> data_end \<and>
       take p (bytes d') = headers (take data (bytes d)) header buffer j G @ payloads buffer j G) \<and>
    (data + length (payloads buffer j G) + 24 \<le> data_end \<longrightarrow> r \<noteq> None)"
proof (induction n arbitrary: j d data)
  case 0
  then have "j = G" by simp
  then have "encodeBytes_groups d data data_end buffer (16 * G) header (16 * j) = (d, Some data)"
    by (intro groups_done) simp
  with 0 have "d' = d" "r = Some data" by simp_all
  then show ?case using \<open>j = G\<close> 0(5) 0(3) by simp
next
  case (Suc n)
  then have jG: "j < G" by simp
  note len = \<open>length (bytes d) = data_end\<close>
  show ?case
  proof (cases "data + 24 \<le> data_end")
    case True
    define g where "g = group_at buffer j"
    define d1 where "d1 = step_dest d data header j g"
    define data1 where "data1 = data + length (spec_payload g)"
    have "16 * Suc j \<le> 16 * G" using jG by simp
    then have ib: "16 * j + 16 \<le> length buffer" using assms(1) by simp
    then have lg: "length g = 16" by (simp add: g_def group_at_def)
    have hb: "header + j div 4 < data" using jG Suc.prems(4) by simp
    have room: "data + 24 \<le> length (bytes d)" using True len by simp
    note sp = step_dest_props [OF room hb lg, folded d1_def]
    have lp: "length (spec_payload g) \<le> 24" using lg by (rule spec_payload_length)
    have dv: "16 * j div 16 = j" and e: "16 * j + 16 = 16 * Suc j" by simp_all
    have "16 * j < 16 * G" using jG by simp
    then have "encodeBytes_groups d data data_end buffer (16 * G) header (16 * j) =
      encodeBytes_groups d1 data1 data_end buffer (16 * G) header (16 * Suc j)"
      unfolding d1_def data1_def g_def group_at_def e [symmetric]
      by (rule groups_step [OF _ ib True assms(2), unfolded dv])
    then have run: "encodeBytes_groups d1 data1 data_end buffer (16 * G) header (16 * Suc j) = (d', r)"
      using Suc.prems(6) by simp
    have ih: "(length (bytes d') = length (bytes d1) \<and> aborted d' = aborted d1 \<and>
          overrun d' = overrun d1 \<and> take header (bytes d') = take header (bytes d1)) \<and>
      (\<forall>p. r = Some p \<longrightarrow> p = data1 + length (payloads buffer (Suc j) G) \<and> p \<le> data_end \<and>
         take p (bytes d') = headers (take data1 (bytes d1)) header buffer (Suc j) G
            @ payloads buffer (Suc j) G) \<and>
      (data1 + length (payloads buffer (Suc j) G) + 24 \<le> data_end \<longrightarrow> r \<noteq> None)"
    proof (rule Suc.IH [OF _ _ _ _ _ run])
      show "G - Suc j = n" using Suc.prems(1) by simp
      show "Suc j \<le> G" using jG by simp
      show "length (bytes d1) = data_end" using sp(1) len by simp
      show "header + (G + 3) div 4 \<le> data1" using Suc.prems(4) by (simp add: data1_def)
      show "data1 \<le> data_end" using True lp by (simp add: data1_def)
    qed
    have ldata: "length (take data (bytes d)) = data" using Suc.prems(5) len by simp
    have t1: "take data1 (bytes d1) =
        header_set (take data (bytes d)) header j (spec_code (fst (spec_select g))) @ spec_payload g"
      using sp(5) by (simp add: data1_def)
    have h: "headers (take data1 (bytes d1)) header buffer (Suc j) G @ payloads buffer (Suc j) G =
        headers (take data (bytes d)) header buffer j G @ payloads buffer j G"
      unfolding t1 payloads_step [OF jG] headers_step [OF jG, of "take data (bytes d)"] g_def [symmetric]
      using Suc.prems(4) ldata by (subst headers_append) simp_all
    have th: "take header (bytes d1) = take header (bytes d)"
    proof -
      have "header \<le> data" using Suc.prems(4) by simp
      then have "take header (bytes d1) = take header (take data (bytes d1))" by (simp add: min_def)
      also have "\<dots> = take header (take data (bytes d))" unfolding sp(4) by (rule header_set_take)
      also have "\<dots> = take header (bytes d)" using \<open>header \<le> data\<close> by (simp add: min_def)
      finally show ?thesis .
    qed
    have pl: "data1 + length (payloads buffer (Suc j) G) = data + length (payloads buffer j G)"
      by (simp add: data1_def payloads_step [OF jG] g_def)
    show ?thesis
      using ih sp(1,2,3) th unfolding h pl by simp
  next
    case False
    then have "encodeBytes_groups d data data_end buffer (16 * G) header (16 * j) = (d, None)"
      using jG Suc.prems(5) assms(2) by (intro groups_fail) simp_all
    with Suc.prems(6) have "d' = d" "r = None" by simp_all
    then show ?thesis using False by simp
  qed
qed

lemma header_set_prepend:
  "j div 4 < length h \<Longrightarrow> header_set (xs @ h) (length xs) j c = xs @ header_set h 0 j c"
  by (simp add: header_set_def list_update_append nth_append)

lemma headers_prepend:
  assumes "(G + 3) div 4 \<le> length h"
  shows "headers (xs @ h) (length xs) buffer j G = xs @ headers h 0 buffer j G"
proof -
  have "\<forall>k \<in> set ks. k < G \<Longrightarrow> (G + 3) div 4 \<le> length h \<Longrightarrow>
    foldl (\<lambda>bs k. header_set bs (length xs) k (f k)) (xs @ h) ks =
    xs @ foldl (\<lambda>bs k. header_set bs 0 k (f k)) h ks" for f ks h
  proof (induction ks arbitrary: h)
    case Nil
    then show ?case by simp
  next
    case (Cons k ks)
    have "k < G" using Cons.prems(1) by simp
    then have "k div 4 < length h" using Cons.prems(2) by simp
    then show ?case using Cons by (simp add: header_set_prepend)
  qed
  then show ?thesis unfolding headers_def using assms by simp
qed

lemma memset_props:
  assumes "p + n \<le> length (bytes d)"
  shows "length (bytes (memset_dest d p c n)) = length (bytes d)"
    and "aborted (memset_dest d p c n) = aborted d"
    and "overrun (memset_dest d p c n) = overrun d"
    and "take (p + n) (bytes (memset_dest d p c n)) = take p (bytes d) @ replicate n c"
  using assms blit_content [of p "replicate n c" d]
  by (simp_all add: memset_dest_def blit_overrun)

lemma encodeBytes_run:
  assumes n: "n = 16 * G" "n \<le> length buffer"
    and dst: "length (bytes d) = data_end" "data_end < 2 ^ 64" "data \<le> data_end"
    and run: "encodeBytes d data data_end buffer n = (d', r)"
  shows "length (bytes d') = length (bytes d) \<and> aborted d' = aborted d \<and> overrun d' = overrun d
       \<and> take data (bytes d') = take data (bytes d)"
    and "r = Some p \<Longrightarrow> p = data + length (spec_encodeBytes buffer n) \<and> p \<le> data_end \<and>
       take p (bytes d') = take data (bytes d) @ spec_encodeBytes buffer n"
    and "data + length (spec_encodeBytes buffer n) + 24 \<le> data_end \<Longrightarrow> r \<noteq> None"
proof -
  define hs where "hs = (G + 3) div 4"
  have G: "n div 16 = G" "n mod 16 = 0" using n(1) by simp_all
  have out: "spec_encodeBytes buffer n = headers (replicate hs 0) 0 buffer 0 G @ payloads buffer 0 G"
    by (simp add: spec_encodeBytes_def G hs_def)
  have sd: "size_diff data_end data = data_end - data" using dst(3,2) by (rule size_diff_le)
  have all: "(length (bytes d') = length (bytes d) \<and> aborted d' = aborted d \<and>
       overrun d' = overrun d \<and> take data (bytes d') = take data (bytes d)) \<and>
    (\<forall>p. r = Some p \<longrightarrow> p = data + length (spec_encodeBytes buffer n) \<and> p \<le> data_end \<and>
       take p (bytes d') = take data (bytes d) @ spec_encodeBytes buffer n) \<and>
    (data + length (spec_encodeBytes buffer n) + 24 \<le> data_end \<longrightarrow> r \<noteq> None)"
  proof (cases "data_end - data < hs")
    case True
    then have "encodeBytes d data data_end buffer n = (d, None)"
      by (simp add: encodeBytes_def assert_that_def kByteGroupSize_def G sd hs_def Let_def)
    with run have "d' = d" "r = None" by simp_all
    then show ?thesis using True by (simp add: out)
  next
    case False
    define d0 where "d0 = memset_dest d data 0 hs"
    have room: "data + hs \<le> length (bytes d)" using False dst by simp
    note ms = memset_props [OF room, of 0, folded d0_def]
    have "encodeBytes d data data_end buffer n =
        encodeBytes_groups d0 (data + hs) data_end buffer (16 * G) data (16 * 0)"
      using False
      by (simp add: encodeBytes_def assert_that_def kByteGroupSize_def G sd hs_def Let_def d0_def n(1))
    with run have run0:
      "encodeBytes_groups d0 (data + hs) data_end buffer (16 * G) data (16 * 0) = (d', r)"
      by simp
    have gl: "(length (bytes d') = length (bytes d0) \<and> aborted d' = aborted d0 \<and>
          overrun d' = overrun d0 \<and> take data (bytes d') = take data (bytes d0)) \<and>
      (\<forall>p. r = Some p \<longrightarrow> p = data + hs + length (payloads buffer 0 G) \<and> p \<le> data_end \<and>
         take p (bytes d') = headers (take (data + hs) (bytes d0)) data buffer 0 G
            @ payloads buffer 0 G) \<and>
      (data + hs + length (payloads buffer 0 G) + 24 \<le> data_end \<longrightarrow> r \<noteq> None)"
    proof (rule groups_loop [OF _ dst(2) refl _ _ _ _ run0])
      show "16 * G \<le> length buffer" using n by simp
      show "0 \<le> G" by simp
      show "length (bytes d0) = data_end" using ms(1) dst(1) by simp
      show "data + (G + 3) div 4 \<le> data + hs" by (simp add: hs_def)
      show "data + hs \<le> data_end" using room dst(1) by simp
    qed
    have ld: "length (take data (bytes d)) = data" using dst by simp
    have h: "headers (take (data + hs) (bytes d0)) data buffer 0 G =
        take data (bytes d) @ headers (replicate hs 0) 0 buffer 0 G"
      unfolding ms(4)
      using headers_prepend [of G "replicate hs 0" "take data (bytes d)" buffer 0, unfolded ld]
      by (simp add: hs_def)
    have t0: "take data (bytes d0) = take data (bytes d)"
    proof -
      have "take data (bytes d0) = take data (take (data + hs) (bytes d0))" by (simp add: min_def)
      also have "\<dots> = take data (bytes d)" unfolding ms(4) using ld by simp
      finally show ?thesis .
    qed
    show ?thesis
      using gl ms(1,2,3) unfolding h t0 out by (simp add: add.assoc)
  qed
  show "length (bytes d') = length (bytes d) \<and> aborted d' = aborted d \<and> overrun d' = overrun d
       \<and> take data (bytes d') = take data (bytes d)"
    using all by blast
  show "r = Some p \<Longrightarrow> p = data + length (spec_encodeBytes buffer n) \<and> p \<le> data_end \<and>
       take p (bytes d') = take data (bytes d) @ spec_encodeBytes buffer n"
    using all by blast
  show "data + length (spec_encodeBytes buffer n) + 24 \<le> data_end \<Longrightarrow> r \<noteq> None"
    using all by blast
qed

lemma of_nat_code_bits: "c < 4 \<Longrightarrow> bit (of_nat c :: u8) m \<Longrightarrow> m < 2"
proof -
  assume c: "c < 4" and b: "bit (of_nat c :: u8) m"
  from c consider "c = 0" | "c = 1" | "c = 2" | "c = 3" by linarith
  then have "(of_nat c :: u8) \<le> mask 2"
    by cases (simp_all add: mask_eq_exp_minus_1)
  then have "take_bit 2 (of_nat c :: u8) = of_nat c" by (rule le_mask_take_bit)
  then have "bit (take_bit 2 (of_nat c :: u8)) m" using b by simp
  then show ?thesis by (simp add: bit_take_bit_iff)
qed

lemma slot_window:
  assumes "c < 4" "km < 4" "jm < 4"
  shows "take_bit 2 (drop_bit (2 * km) (push_bit (2 * jm) (of_nat c :: u8))) =
    (if km = jm then of_nat c else 0)"
proof (rule bit_word_eqI)
  fix n assume "n < LENGTH(8)"
  note cb = of_nat_code_bits [OF assms(1)]
  show "bit (take_bit 2 (drop_bit (2 * km) (push_bit (2 * jm) (of_nat c :: u8)))) n \<longleftrightarrow>
      bit (if km = jm then of_nat c else (0 :: u8)) n"
  proof (cases "km = jm")
    case True
    then show ?thesis using cb [of n] assms
      by (auto simp add: bit_take_bit_iff bit_drop_bit_eq bit_push_bit_iff)
  next
    case False
    have "\<not> bit (of_nat c :: u8) (2 * km + n - 2 * jm)" if "n < 2" "2 * jm \<le> 2 * km + n"
    proof
      assume "bit (of_nat c :: u8) (2 * km + n - 2 * jm)"
      then have "2 * km + n - 2 * jm < 2" by (rule cb)
      then show False using that False by linarith
    qed
    then show ?thesis using False
      by (auto simp add: bit_take_bit_iff bit_drop_bit_eq bit_push_bit_iff)
  qed
qed

lemma slot_header_set:
  assumes "c < 4" "j div 4 < length h"
  shows "slot (header_set h 0 j (c :: nat)) k = (if k = j then slot h k OR of_nat c else slot h k)"
proof (cases "k div 4 = j div 4")
  case True
  have e: "k = j \<longleftrightarrow> k mod 4 = j mod 4"
    using True by (metis div_mult_mod_eq)
  have "slot (header_set h 0 j c) k =
      slot h k OR take_bit 2 (drop_bit (2 * (k mod 4)) (push_bit (2 * (j mod 4)) (of_nat c :: u8)))"
    using True assms(2)
    by (simp add: slot_def header_set_def mult.commute flip: take_bit_or drop_bit_or)
  also have "\<dots> = (if k = j then slot h k OR of_nat c else slot h k)"
    using assms(1) by (subst slot_window) (simp_all add: e)
  finally show ?thesis .
next
  case False
  then have "k \<noteq> j" by auto
  then show ?thesis using False by (simp add: slot_def header_set_def)
qed

lemma slot_fold:
  assumes "\<forall>k \<in> set ks. f k < 4 \<and> k div 4 < length h" "distinct ks"
  shows "slot (foldl (\<lambda>bs k. header_set bs 0 k (f k)) h ks) k =
    (if k \<in> set ks then slot h k OR of_nat (f k) else slot h k)"
  using assms
proof (induction ks arbitrary: h)
  case Nil
  then show ?case by simp
next
  case (Cons a ks)
  have a: "f a < 4" "a div 4 < length h" using Cons.prems(1) by simp_all
  have "slot (foldl (\<lambda>bs k. header_set bs 0 k (f k)) (header_set h 0 a (f a)) ks) k =
     (if k \<in> set ks then slot (header_set h 0 a (f a)) k OR of_nat (f k)
      else slot (header_set h 0 a (f a)) k)"
    using Cons.prems by (intro Cons.IH) simp_all
  then show ?case using Cons.prems(2) by (auto simp add: slot_header_set [OF a])
qed

lemma spec_code_less: "spec_code b < 4"
  by (simp add: spec_code_def)

lemma slot_zero: "k div 4 < n \<Longrightarrow> slot (replicate n 0) k = 0"
  by (simp add: slot_def)

lemma slot_headers:
  assumes "k < 4 * ((G + 3) div 4)"
  shows "slot (headers (replicate ((G + 3) div 4) 0) 0 buffer 0 G) k =
    (if k < G then of_nat (spec_code (fst (spec_select (group_at buffer k)))) else 0)"
proof -
  have kd: "k div 4 < (G + 3) div 4" using assms by simp
  have "\<forall>j \<in> set [0..<G]. spec_code (fst (spec_select (group_at buffer j))) < 4 \<and>
      j div 4 < length (replicate ((G + 3) div 4) (0 :: u8))"
    by (auto simp add: spec_code_less)
  then show ?thesis
    unfolding headers_def
    by (subst slot_fold) (simp_all add: slot_zero [OF kd])
qed

lemma align_down_eq: "align_down x = 16 * (x div 16)"
proof -
  have "int x AND NOT (mask 4) = push_bit 4 (drop_bit 4 (int x))"
    by (rule bit_eqI)
      (auto simp add: bit_and_iff bit_not_iff bit_mask_iff bit_push_bit_iff bit_drop_bit_eq
        simp del: push_bit_eq_mult drop_bit_eq_div)
  also have "\<dots> = int (16 * (x div 16))"
    by (simp add: push_bit_eq_mult drop_bit_eq_div zdiv_int)
  finally have "int x AND NOT (mask 4) = int (16 * (x div 16))" .
  moreover have "(mask 4 :: int) = int kByteGroupSize - 1"
    by (simp add: mask_eq_exp_minus_1 kByteGroupSize_def)
  ultimately show ?thesis
    unfolding align_down_def by (simp only: nat_int)
qed

lemma deltas_from:
  "vertex_count \<le> length buffer \<Longrightarrow> i \<le> vertex_count \<Longrightarrow>
   vertex_offset = i * vertex_size + k \<Longrightarrow>
   p = (if i = 0 then last_vertex ! k else vertex_data ! ((i - 1) * vertex_size + k)) \<Longrightarrow>
   encodeVertexBlock_deltas buffer vertex_data vertex_count vertex_size vertex_offset p i =
     take i buffer @ map (spec_delta vertex_data vertex_size last_vertex k) [i..<vertex_count]
       @ drop vertex_count buffer"
proof (induction buffer vertex_data vertex_count vertex_size vertex_offset p i
    rule: encodeVertexBlock_deltas.induct)
  case (1 buffer vertex_data vertex_count vertex_size vertex_offset p i)
  show ?case
  proof (cases "i < vertex_count")
    case True
    let ?b = "buffer[i := zigzag8 (vertex_data ! vertex_offset - p)]"
    have u: "[i..<vertex_count] = i # [i + 1..<vertex_count]" using True by (simp add: upt_conv_Cons)
    have dl: "zigzag8 (vertex_data ! vertex_offset - p) =
        spec_delta vertex_data vertex_size last_vertex k i"
      using 1(4,5) by (simp add: spec_delta_def)
    have "encodeVertexBlock_deltas buffer vertex_data vertex_count vertex_size vertex_offset p i =
        encodeVertexBlock_deltas ?b vertex_data vertex_count vertex_size
          (vertex_offset + vertex_size) (vertex_data ! vertex_offset) (i + 1)"
      using True by (subst encodeVertexBlock_deltas.simps) simp
    also have "\<dots> = take (i + 1) ?b
        @ map (spec_delta vertex_data vertex_size last_vertex k) [i + 1..<vertex_count]
        @ drop vertex_count ?b"
      using True 1(2,4) by (intro 1(1)) simp_all
    also have "\<dots> = take i buffer
        @ map (spec_delta vertex_data vertex_size last_vertex k) [i..<vertex_count]
        @ drop vertex_count buffer"
      using True 1(2) unfolding u dl
      by (simp add: take_Suc_conv_app_nth del: upt_Suc)
    finally show ?thesis .
  next
    case False
    then have "i = vertex_count" using 1(3) by simp
    then show ?thesis
      by (subst encodeVertexBlock_deltas.simps) simp
  qed
qed

lemma deltas_eq:
  assumes "vertex_count \<le> length buffer"
  shows "encodeVertexBlock_deltas buffer vertex_data vertex_count vertex_size k (last_vertex ! k) 0 =
     spec_deltas vertex_data vertex_count vertex_size last_vertex k @ drop vertex_count buffer"
  using deltas_from [OF assms, of 0 k vertex_size k "last_vertex ! k" last_vertex vertex_data]
  by (simp add: spec_deltas_def)

lemma take_le_eq: "take p xs = take p ys \<Longrightarrow> q \<le> p \<Longrightarrow> take q xs = take q ys"
  by (metis min.absorb_iff2 take_take min.commute)

lemma spec_channels_step: "k < vertex_size \<Longrightarrow>
  spec_channels vertex_data vertex_count vertex_size last_vertex k =
    spec_encodeBytes (spec_channel_buffer vertex_data vertex_count vertex_size last_vertex k)
      (16 * ((vertex_count + 15) div 16))
    @ spec_channels vertex_data vertex_count vertex_size last_vertex (Suc k)"
  by (simp add: spec_channels_def upt_conv_Cons)

lemma spec_channels_done [simp]:
  "spec_channels vertex_data vertex_count vertex_size last_vertex vertex_size = []"
  by (simp add: spec_channels_def)

lemma channels_loop:
  assumes vc: "0 < vertex_count" "vertex_count \<le> 256" and de: "data_end < 2 ^ 64"
  shows "vertex_size - k = m \<Longrightarrow> k \<le> vertex_size \<Longrightarrow> length buffer = 256 \<Longrightarrow>
    drop vertex_count buffer = replicate (256 - vertex_count) 0 \<Longrightarrow>
    length (bytes d) = data_end \<Longrightarrow> data \<le> data_end \<Longrightarrow>
    encodeVertexBlock_channels d data data_end vertex_data vertex_count vertex_size
      last_vertex buffer k = (d', r) \<Longrightarrow>
    (length (bytes d') = length (bytes d) \<and> aborted d' = aborted d \<and> overrun d' = overrun d
       \<and> take data (bytes d') = take data (bytes d)) \<and>
    (\<forall>p. r = Some p \<longrightarrow>
       p = data + length (spec_channels vertex_data vertex_count vertex_size last_vertex k) \<and>
       p \<le> data_end \<and>
       take p (bytes d') = take data (bytes d)
          @ spec_channels vertex_data vertex_count vertex_size last_vertex k) \<and>
    (data + length (spec_channels vertex_data vertex_count vertex_size last_vertex k) + 24
       \<le> data_end \<longrightarrow> r \<noteq> None)"
proof (induction m arbitrary: k buffer d data)
  case 0
  then have k: "k = vertex_size" by simp
  have "encodeVertexBlock_channels d data data_end vertex_data vertex_count vertex_size
      last_vertex buffer k = (d, Some data)"
    unfolding k by (subst encodeVertexBlock_channels.simps) simp
  with 0(7) have "d' = d" "r = Some data" by simp_all
  then show ?case using k 0(5,6) by simp
next
  case (Suc m)
  then have kv: "k < vertex_size" by simp
  define n where "n = 16 * ((vertex_count + 15) div 16)"
  define cb where "cb = spec_channel_buffer vertex_data vertex_count vertex_size last_vertex k"
  define out where "out = spec_encodeBytes cb n"
  have lb: "vertex_count \<le> length buffer" using vc(2) Suc.prems(3) by simp
  have b1: "encodeVertexBlock_deltas buffer vertex_data vertex_count vertex_size k
      (last_vertex ! k) 0 = cb"
    unfolding cb_def spec_channel_buffer_def deltas_eq [OF lb] Suc.prems(4) ..
  have lcb: "length cb = 256" using vc(2) by (simp add: cb_def spec_channel_buffer_def spec_deltas_def)
  have dcb: "drop vertex_count cb = replicate (256 - vertex_count) 0"
    by (simp add: cb_def spec_channel_buffer_def spec_deltas_def)
  have nn: "n = 16 * (n div 16)" by (simp add: n_def)
  have "(vertex_count + 15) div 16 \<le> 16" using vc(2) by simp
  then have nl: "n \<le> length cb" unfolding lcb n_def by simp
  have al: "align_down (vertex_count + kByteGroupSize - Suc 0) = n"
    by (simp add: align_down_eq n_def kByteGroupSize_def)
  obtain d1 r1 where eb: "encodeBytes d data data_end cb n = (d1, r1)"
    by (cases "encodeBytes d data data_end cb n")
  note er = encodeBytes_run [OF nn nl Suc.prems(5) de Suc.prems(6) eb, folded out_def]
  have unf: "encodeVertexBlock_channels d data data_end vertex_data vertex_count vertex_size
      last_vertex buffer k =
    (case r1 of None \<Rightarrow> (d1, None)
     | Some data1 \<Rightarrow> encodeVertexBlock_channels d1 data1 data_end vertex_data vertex_count
         vertex_size last_vertex cb (Suc k))"
    using kv by (subst encodeVertexBlock_channels.simps) (simp add: Let_def b1 al eb)
  have sc: "spec_channels vertex_data vertex_count vertex_size last_vertex k =
      out @ spec_channels vertex_data vertex_count vertex_size last_vertex (Suc k)"
    unfolding out_def cb_def n_def by (rule spec_channels_step [OF kv])
  show ?case
  proof (cases r1)
    case None
    with unf Suc.prems(7) have dr: "d' = d1" "r = None" by simp_all
    have "\<not> data + length out + 24 \<le> data_end" using er(3) None by blast
    then show ?thesis using er(1) dr by (simp add: sc)
  next
    case (Some data1)
    with unf Suc.prems(7) have run1: "encodeVertexBlock_channels d1 data1 data_end vertex_data
        vertex_count vertex_size last_vertex cb (Suc k) = (d', r)" by simp
    have p1: "data1 = data + length out" "data1 \<le> data_end"
      and t1: "take data1 (bytes d1) = take data (bytes d) @ out"
      using er(2) [OF Some] by blast+
    have ih: "(length (bytes d') = length (bytes d1) \<and> aborted d' = aborted d1 \<and>
         overrun d' = overrun d1 \<and> take data1 (bytes d') = take data1 (bytes d1)) \<and>
      (\<forall>p. r = Some p \<longrightarrow>
         p = data1 + length (spec_channels vertex_data vertex_count vertex_size last_vertex (Suc k)) \<and>
         p \<le> data_end \<and>
         take p (bytes d') = take data1 (bytes d1)
            @ spec_channels vertex_data vertex_count vertex_size last_vertex (Suc k)) \<and>
      (data1 + length (spec_channels vertex_data vertex_count vertex_size last_vertex (Suc k)) + 24
         \<le> data_end \<longrightarrow> r \<noteq> None)"
    proof (rule Suc.IH [OF _ _ lcb dcb _ p1(2) run1])
      show "vertex_size - Suc k = m" using Suc.prems(1) by simp
      show "Suc k \<le> vertex_size" using kv by simp
      show "length (bytes d1) = data_end" using er(1) Suc.prems(5) by simp
    qed
    have "data \<le> data1" using p1(1) by simp
    with ih have "take data (bytes d') = take data (bytes d1)" by (blast intro: take_le_eq)
    then show ?thesis
      using ih er(1) t1 unfolding sc p1(1) by (simp add: add.assoc)
  qed
qed

lemma channels_eq:
  assumes vc: "vertex_count \<le> 256"
  shows "vertex_size - k = m \<Longrightarrow> k \<le> vertex_size \<Longrightarrow> length buffer = 256 \<Longrightarrow>
    drop vertex_count buffer = replicate (256 - vertex_count) 0 \<Longrightarrow>
    encodeVertexBlock_channels d data data_end vertex_data vertex_count vertex_size
      last_vertex buffer k =
    spec_encode_channels d data data_end
      (map (spec_channel_buffer vertex_data vertex_count vertex_size last_vertex) [k..<vertex_size])
      (16 * ((vertex_count + 15) div 16))"
proof (induction m arbitrary: k buffer d data)
  case 0
  then have k: "k = vertex_size" by simp
  show ?case unfolding k by (subst encodeVertexBlock_channels.simps) simp
next
  case (Suc m)
  then have kv: "k < vertex_size" by simp
  define cb where "cb = spec_channel_buffer vertex_data vertex_count vertex_size last_vertex k"
  have lb: "vertex_count \<le> length buffer" using vc Suc.prems(3) by simp
  have b1: "encodeVertexBlock_deltas buffer vertex_data vertex_count vertex_size k
      (last_vertex ! k) 0 = cb"
    unfolding cb_def spec_channel_buffer_def deltas_eq [OF lb] Suc.prems(4) ..
  have lcb: "length cb = 256" using vc by (simp add: cb_def spec_channel_buffer_def spec_deltas_def)
  have dcb: "drop vertex_count cb = replicate (256 - vertex_count) 0"
    by (simp add: cb_def spec_channel_buffer_def spec_deltas_def)
  have al: "align_down (vertex_count + kByteGroupSize - Suc 0) = 16 * ((vertex_count + 15) div 16)"
    by (simp add: align_down_eq kByteGroupSize_def)
  have ih: "encodeVertexBlock_channels d1 data1 data_end vertex_data vertex_count vertex_size
      last_vertex cb (Suc k) =
    spec_encode_channels d1 data1 data_end
      (map (spec_channel_buffer vertex_data vertex_count vertex_size last_vertex)
         [Suc k..<vertex_size])
      (16 * ((vertex_count + 15) div 16))" for d1 data1
    using Suc.prems(1) kv by (intro Suc.IH [OF _ _ lcb dcb]) simp_all
  have u: "[k..<vertex_size] = k # [Suc k..<vertex_size]" using kv by (simp add: upt_conv_Cons)
  show ?case
    using kv unfolding u
    by (subst encodeVertexBlock_channels.simps)
      (simp add: Let_def b1 al ih cb_def [symmetric] split: prod.splits option.splits)
qed

lemma spec_channel_buffer_take:
  assumes "vertex_count \<le> 256"
  shows "take (16 * ((vertex_count + 15) div 16))
      (spec_channel_buffer vertex_data vertex_count vertex_size last_vertex k) =
    spec_deltas vertex_data vertex_count vertex_size last_vertex k
      @ replicate (16 * ((vertex_count + 15) div 16) - vertex_count) 0"
proof -
  have "(vertex_count + 15) div 16 \<le> 16" using assms by simp
  then have "16 * ((vertex_count + 15) div 16) \<le> 256" by simp
  then show ?thesis
    by (simp add: spec_channel_buffer_def spec_deltas_def min_def)
qed

lemma block_run:
  assumes vc: "0 < vertex_count" "vertex_count \<le> 256"
    and dst: "length (bytes d) = data_end" "data_end < 2 ^ 64" "data \<le> data_end"
    and run: "encodeVertexBlock d data data_end vertex_data vertex_count vertex_size last_vertex
       = (d', r, lv')"
  shows "length (bytes d') = length (bytes d) \<and> aborted d' = aborted d \<and> overrun d' = overrun d
       \<and> take data (bytes d') = take data (bytes d)"
    and "r = Some p \<Longrightarrow>
       p = data + length (spec_block vertex_data vertex_count vertex_size last_vertex) \<and>
       p \<le> data_end \<and>
       take p (bytes d') = take data (bytes d)
          @ spec_block vertex_data vertex_count vertex_size last_vertex \<and>
       lv' = memcpy_array last_vertex (drop (vertex_size * (vertex_count - 1)) vertex_data)
               vertex_size"
    and "data + length (spec_block vertex_data vertex_count vertex_size last_vertex) + 24
       \<le> data_end \<Longrightarrow> r \<noteq> None"
proof -
  obtain d1 r1 where ch: "encodeVertexBlock_channels d data data_end vertex_data vertex_count
      vertex_size last_vertex (replicate 256 0) 0 = (d1, r1)"
    by (cases "encodeVertexBlock_channels d data data_end vertex_data vertex_count
      vertex_size last_vertex (replicate 256 0) 0")
  have cl: "(length (bytes d1) = length (bytes d) \<and> aborted d1 = aborted d \<and>
       overrun d1 = overrun d \<and> take data (bytes d1) = take data (bytes d)) \<and>
    (\<forall>p. r1 = Some p \<longrightarrow>
       p = data + length (spec_channels vertex_data vertex_count vertex_size last_vertex 0) \<and>
       p \<le> data_end \<and>
       take p (bytes d1) = take data (bytes d)
          @ spec_channels vertex_data vertex_count vertex_size last_vertex 0) \<and>
    (data + length (spec_channels vertex_data vertex_count vertex_size last_vertex 0) + 24
       \<le> data_end \<longrightarrow> r1 \<noteq> None)"
    by (rule channels_loop [OF vc dst(2) refl _ _ _ dst(1) dst(3) ch]) simp_all
  have e: "encodeVertexBlock d data data_end vertex_data vertex_count vertex_size last_vertex =
    (case r1 of None \<Rightarrow> (d1, None, last_vertex)
     | Some data1 \<Rightarrow> (d1, Some data1,
         memcpy_array last_vertex (drop (vertex_size * (vertex_count - 1)) vertex_data)
           vertex_size))"
    using vc
    by (cases r1)
      (simp_all add: encodeVertexBlock_def assert_that_def kVertexBlockMaxSize_def
        kByteGroupSize_def Let_def ch)
  have all: "(length (bytes d') = length (bytes d) \<and> aborted d' = aborted d \<and>
       overrun d' = overrun d \<and> take data (bytes d') = take data (bytes d)) \<and>
    (\<forall>p. r = Some p \<longrightarrow>
       p = data + length (spec_block vertex_data vertex_count vertex_size last_vertex) \<and>
       p \<le> data_end \<and>
       take p (bytes d') = take data (bytes d)
          @ spec_block vertex_data vertex_count vertex_size last_vertex \<and>
       lv' = memcpy_array last_vertex (drop (vertex_size * (vertex_count - 1)) vertex_data)
               vertex_size) \<and>
    (data + length (spec_block vertex_data vertex_count vertex_size last_vertex) + 24
       \<le> data_end \<longrightarrow> r \<noteq> None)"
    using cl run unfolding e spec_block_def by (cases r1) auto
  show "length (bytes d') = length (bytes d) \<and> aborted d' = aborted d \<and> overrun d' = overrun d
       \<and> take data (bytes d') = take data (bytes d)"
    using all by blast
  show "r = Some p \<Longrightarrow>
       p = data + length (spec_block vertex_data vertex_count vertex_size last_vertex) \<and>
       p \<le> data_end \<and>
       take p (bytes d') = take data (bytes d)
          @ spec_block vertex_data vertex_count vertex_size last_vertex \<and>
       lv' = memcpy_array last_vertex (drop (vertex_size * (vertex_count - 1)) vertex_data)
               vertex_size"
    using all by blast
  show "data + length (spec_block vertex_data vertex_count vertex_size last_vertex) + 24
       \<le> data_end \<Longrightarrow> r \<noteq> None"
    using all by blast
qed

lemma block_fail_last:
  assumes "encodeVertexBlock d data data_end vertex_data vertex_count vertex_size last_vertex
       = (d', None, lv')"
  shows "lv' = last_vertex"
  using assms
  by (auto simp add: encodeVertexBlock_def Let_def split: prod.splits option.splits)

lemma blocks_count:
  assumes "0 < bv"
  shows "(j :: nat) < (vc + bv - 1) div bv \<longleftrightarrow> j * bv < vc"
proof -
  have "j < (vc + bv - 1) div bv \<longleftrightarrow> Suc j \<le> (vc + bv - 1) div bv" by auto
  also have "\<dots> \<longleftrightarrow> Suc j * bv \<le> vc + bv - 1"
    using assms by (rule less_eq_div_iff_mult_less_eq)
  also have "\<dots> \<longleftrightarrow> j * bv < vc" using assms by auto
  finally show ?thesis .
qed

lemma spec_blocks_from_step:
  assumes "0 < bv" "j * bv < vc"
  shows "spec_blocks_from vd vc vs bv j = spec_block_at vd vc vs bv j @ spec_blocks_from vd vc vs bv (Suc j)"
  using blocks_count [OF assms(1), of j vc] assms(2)
  by (simp add: spec_blocks_from_def upt_conv_Cons)

lemma spec_blocks_from_done:
  assumes "0 < bv" "\<not> j * bv < vc"
  shows "spec_blocks_from vd vc vs bv j = []"
  using blocks_count [OF assms(1), of j vc] assms(2)
  by (simp add: spec_blocks_from_def)

lemma blocks_loop:
  assumes bv: "0 < bv" "bv \<le> 256" and vs: "0 < vs" "vs \<le> 256" and vd: "length vd = vc * vs"
    and de: "data_end < 2 ^ 64"
  shows "vc - j * bv = m \<Longrightarrow>
    (j * bv < vc \<longrightarrow> lv = spec_predictor vd vs (if j = 0 then 0 else j * bv - 1)) \<Longrightarrow>
    length (bytes d) = data_end \<Longrightarrow> data \<le> data_end \<Longrightarrow>
    encodeV1_blocks d data data_end vd vc vs lv bv (j * bv) = (d', r, lv') \<Longrightarrow>
    (length (bytes d') = length (bytes d) \<and> aborted d' = aborted d \<and> overrun d' = overrun d
       \<and> take data (bytes d') = take data (bytes d)) \<and>
    (\<forall>p. r = Some p \<longrightarrow>
       p = data + length (spec_blocks_from vd vc vs bv j) \<and> p \<le> data_end \<and>
       take p (bytes d') = take data (bytes d) @ spec_blocks_from vd vc vs bv j) \<and>
    (data + length (spec_blocks_from vd vc vs bv j) + 24 \<le> data_end \<longrightarrow> r \<noteq> None)"
proof (induction m arbitrary: j lv d data rule: less_induct)
  case (less m)
  show ?case
  proof (cases "j * bv < vc")
    case False
    then have "encodeV1_blocks d data data_end vd vc vs lv bv (j * bv) = (d, Some data, lv)"
      by (subst encodeV1_blocks.simps) simp
    with less.prems(5) have "d' = d" "r = Some data" by simp_all
    then show ?thesis using less.prems(3,4) spec_blocks_from_done [OF bv(1) False] by simp
  next
    case True
    define off where "off = j * bv"
    define bs where "bs = min bv (vc - off)"
    have bs: "0 < bs" "bs \<le> 256" "off + bs \<le> vc" using True bv by (auto simp: bs_def off_def)
    have bse: "(if off + bv < vc then bv else vc - off) = bs" by (auto simp: bs_def)
    have lv: "lv = spec_predictor vd vs (if j = 0 then 0 else j * bv - 1)"
      using True less.prems(2) by simp
    define blk where "blk = spec_block_at vd vc vs bv j"
    have blk: "spec_block (drop (off * vs) vd) bs vs lv = blk"
      by (simp add: blk_def spec_block_at_def off_def bs_def lv)
    obtain d1 r1 lv1 where eb:
      "encodeVertexBlock d data data_end (drop (off * vs) vd) bs vs lv = (d1, r1, lv1)"
      by (cases "encodeVertexBlock d data data_end (drop (off * vs) vd) bs vs lv") auto
    note br = block_run [OF bs(1,2) less.prems(3) de less.prems(4) eb, unfolded blk]
    have unf: "encodeV1_blocks d data data_end vd vc vs lv bv (j * bv) =
      (case r1 of None \<Rightarrow> (d1, None, lv1)
       | Some data1 \<Rightarrow> encodeV1_blocks d1 data1 data_end vd vc vs lv1 bv (off + bs))"
    proof -
      have c: "off < vc \<and> 0 < bv" using True bv(1) by (simp add: off_def)
      show ?thesis
        apply (subst encodeV1_blocks.simps)
        apply (simp only: off_def [symmetric] c if_True bse Let_def eb prod.case)
        apply (cases r1; simp)
        done
    qed
    have sb: "spec_blocks_from vd vc vs bv j = blk @ spec_blocks_from vd vc vs bv (Suc j)"
      unfolding blk_def by (rule spec_blocks_from_step [OF bv(1) True])
    show ?thesis
    proof (cases r1)
      case None
      with unf less.prems(5) have dr: "d' = d1" "r = None" by simp_all
      have "\<not> data + length blk + 24 \<le> data_end" using br(3) None by blast
      then show ?thesis using br(1) dr by (simp add: sb)
    next
      case (Some data1)
      have p1: "data1 = data + length blk" "data1 \<le> data_end"
        and t1: "take data1 (bytes d1) = take data (bytes d) @ blk"
        and l1: "lv1 = memcpy_array lv (drop (vs * (bs - 1)) (drop (off * vs) vd)) vs"
        using br(2) [OF Some] by blast+
      show ?thesis
      proof (cases "off + bv < vc")
        case True
        then have bsv: "bs = bv" by (simp add: bs_def)
        have o: "off + bs = Suc j * bv" by (simp add: off_def bsv)
        have run1: "encodeV1_blocks d1 data1 data_end vd vc vs lv1 bv (Suc j * bv) = (d', r, lv')"
          using unf less.prems(5) Some by (simp add: o)
        have "(off + bv) * vs \<le> vc * vs" using True by (intro mult_le_mono1) simp
        moreover have "(off + bv - 1) * vs + vs = (off + bv) * vs" using bv(1)
          by (cases bv) (simp_all add: algebra_simps)
        ultimately have "(off + bv - 1) * vs + vs \<le> length vd" using vd by simp
        then have lt: "length (take vs (drop ((off + bv - 1) * vs) vd)) = vs" by simp
        have "length (take vs (drop (if j = 0 then 0 else (j * bv - 1) * vs) vd)) = vs"
        proof -
          have "(if j = 0 then 0 else j * bv - 1) < vc" using \<open>j * bv < vc\<close> by auto
          then have "Suc (if j = 0 then 0 else j * bv - 1) * vs \<le> vc * vs"
            by (intro mult_le_mono1) simp
          then show ?thesis using vd by (auto simp add: algebra_simps)
        qed
        then have dl: "drop vs lv = replicate (256 - vs) 0"
          by (auto simp add: lv spec_predictor_def)
        have "vs * (bv - 1) + off * vs = (off + bv - 1) * vs" using bv(1)
          by (cases bv) (simp_all add: algebra_simps)
        then have l1': "lv1 = spec_predictor vd vs (Suc j * bv - 1)"
          unfolding l1 bsv by (simp add: memcpy_array_def spec_predictor_def dl off_def add.commute)
        have ih: "(length (bytes d') = length (bytes d1) \<and> aborted d' = aborted d1 \<and>
             overrun d' = overrun d1 \<and> take data1 (bytes d') = take data1 (bytes d1)) \<and>
          (\<forall>p. r = Some p \<longrightarrow>
             p = data1 + length (spec_blocks_from vd vc vs bv (Suc j)) \<and> p \<le> data_end \<and>
             take p (bytes d') = take data1 (bytes d1) @ spec_blocks_from vd vc vs bv (Suc j)) \<and>
          (data1 + length (spec_blocks_from vd vc vs bv (Suc j)) + 24 \<le> data_end \<longrightarrow> r \<noteq> None)"
        proof (rule less.IH [OF _ refl _ _ p1(2) run1])
          show "vc - Suc j * bv < m" using less.prems(1) \<open>j * bv < vc\<close> bv(1) by simp
          show "Suc j * bv < vc \<longrightarrow>
              lv1 = spec_predictor vd vs (if Suc j = 0 then 0 else Suc j * bv - 1)"
            using l1' by simp
          show "length (bytes d1) = data_end" using br(1) less.prems(3) by simp
        qed
        have "data \<le> data1" using p1(1) by simp
        with ih have "take data (bytes d') = take data (bytes d1)" by (blast intro: take_le_eq)
        then show ?thesis
          using ih br(1) t1 unfolding sb p1(1) by (simp add: add.assoc)
      next
        case False
        then have o: "off + bs = vc" using \<open>j * bv < vc\<close> by (simp add: bs_def off_def)
        have "encodeV1_blocks d1 data1 data_end vd vc vs lv1 bv (off + bs) = (d1, Some data1, lv1)"
          unfolding o by (subst encodeV1_blocks.simps) simp
        then have dr: "d' = d1" "r = Some data1" using unf less.prems(5) Some by simp_all
        have "\<not> Suc j * bv < vc" using False by (simp add: off_def)
        then have e: "spec_blocks_from vd vc vs bv (Suc j) = []"
          by (rule spec_blocks_from_done [OF bv(1)])
        show ?thesis using br(1) p1 t1 dr by (simp add: sb e)
      qed
    qed
  qed
qed

lemma getVertexBlockSize_eq: "getVertexBlockSize vertex_size = spec_block_vertices vertex_size"
  by (simp add: getVertexBlockSize_def spec_block_vertices_def align_down_eq Let_def
      kVertexBlockSizeBytes_def kVertexBlockMaxSize_def min_def)

lemma spec_block_vertices_bounds:
  assumes "0 < vertex_size" "vertex_size \<le> 256"
  shows "0 < spec_block_vertices vertex_size" "spec_block_vertices vertex_size \<le> 256"
proof -
  have "32 * vertex_size \<le> 8192" using assms(2) by simp
  then have "32 \<le> 8192 div vertex_size"
    using assms(1) by (simp add: less_eq_div_iff_mult_less_eq)
  then have "2 \<le> (8192 div vertex_size) div 16" by simp
  then show "0 < spec_block_vertices vertex_size" by (simp add: spec_block_vertices_def)
  show "spec_block_vertices vertex_size \<le> 256" by (simp add: spec_block_vertices_def)
qed

lemma spec_tail_length:
  "vertex_count * vertex_size = length vertex_data \<Longrightarrow>
   length (spec_tail vertex_data vertex_count vertex_size) = max vertex_size 32"
  by (cases "vertex_count") (auto simp add: spec_tail_def spec_first_vertex_def)

lemma header_byte: "(word_of_int (uint kVertexHeader OR gEncodeVertexVersion) :: u8) = 0xA1"
  by (simp add: kVertexHeader_def gEncodeVertexVersion_def)

lemma store_take1:
  "0 < length (bytes d) \<Longrightarrow> take 1 (bytes (store d 0 v)) = [v]"
  by (cases "bytes d") (simp_all add: store_def)

lemma first_vertex_take:
  assumes "vertex_size \<le> 256" "length vertex_data = vertex_count * vertex_size"
  shows "take vertex_size
      (if 0 < vertex_count then memcpy_array (replicate 256 0) vertex_data vertex_size
       else replicate 256 0) = spec_first_vertex vertex_data vertex_count vertex_size"
proof (cases "0 < vertex_count")
  case True
  then have "vertex_size \<le> length vertex_data" using assms(2) by simp
  then show ?thesis using True by (simp add: memcpy_array_def spec_first_vertex_def)
next
  case False
  then show ?thesis using assms(1) by (simp add: spec_first_vertex_def)
qed

lemma spec_first_vertex_length:
  "length vertex_data = vertex_count * vertex_size \<Longrightarrow>
   length (spec_first_vertex vertex_data vertex_count vertex_size) = vertex_size"
  by (cases vertex_count) (auto simp add: spec_first_vertex_def)

lemma encodeV1_unfold:
  assumes vs: "0 < vs" "vs \<le> 256" "vs mod 4 = 0"
    and vd: "length vd = vc * vs"
    and bs: "1 + vs \<le> buffer_size" "buffer_size < 2 ^ 64"
    and eb: "encodeV1_blocks (store d 0 0xA1) 1 buffer_size vd vc vs
       (spec_first_vertex vd vc vs @ replicate (256 - vs) 0) (spec_block_vertices vs) 0
       = (d2, r, lv2)"
  shows "encodeV1 d buffer_size vd vc vs =
    (case r of
       None \<Rightarrow> (d2, 0)
     | Some p \<Rightarrow>
        if size_diff buffer_size p < max vs 32 then (d2, 0)
        else (assert_that (assert_that (blit d2 p (spec_tail vd vc vs))
                (max vs 32 \<le> p + max vs 32)) (p + max vs 32 \<le> buffer_size),
              size_diff (p + max vs 32) 0))"
proof -
  define fv where "fv = (if 0 < vc then memcpy_array (replicate 256 0) vd vs else replicate 256 0)"
  have tf: "take vs fv = spec_first_vertex vd vc vs"
    unfolding fv_def using vs(2) vd by (rule first_vertex_take)
  have lv0: "memcpy_array (replicate 256 0) fv vs = spec_first_vertex vd vc vs @ replicate (256 - vs) 0"
    by (simp add: memcpy_array_def tf)
  have sd: "size_diff (0 + buffer_size) 0 = buffer_size"
    using size_diff_le [of 0 buffer_size] bs(2) by simp
  have c1: "\<not> size_diff (0 + buffer_size) 0 < 1 + vs" unfolding sd using bs(1) by simp
  have v: "\<not> (\<not> (0 < vs \<and> vs \<le> 256) \<or> vs mod 4 \<noteq> 0)" using vs by simp
  have ts: "(if vs < kTailMaxSize then kTailMaxSize else vs) = max vs 32"
    by (simp add: kTailMaxSize_def max_def)
  show ?thesis
    unfolding encodeV1_def
    using tf
    apply (simp only: v c1 if_False Let_def header_byte getVertexBlockSize_eq
        fv_def [symmetric] lv0 ts)
    apply (simp only: add_0 eb prod.case)
    apply (cases r)
     apply (simp_all only: option.case)
    apply (auto simp add: case_prod_beta memcpy_dest_def memset_dest_def blit_append
        spec_tail_def kTailMaxSize_def max_def)
    done
qed

lemma spec_stream_length:
  "length vd = vc * vs \<Longrightarrow>
   length (spec_stream vd vc vs) =
     1 + length (spec_blocks_from vd vc vs (spec_block_vertices vs) 0) + max vs 32"
  by (simp add: spec_stream_def spec_tail_length)

lemma encodeV1_run:
  assumes vs: "0 < vs" "vs \<le> 256" "vs mod 4 = 0"
    and vd: "length vd = vc * vs"
    and dst: "length (bytes d) = buffer_size" "buffer_size < 2 ^ 64"
    and run: "encodeV1 d buffer_size vd vc vs = (d', R)"
  shows "length (bytes d') = length (bytes d) \<and> aborted d' = aborted d \<and> overrun d' = overrun d"
    and "R \<noteq> 0 \<Longrightarrow> R = length (spec_stream vd vc vs) \<and> R \<le> buffer_size \<and>
           take R (bytes d') = spec_stream vd vc vs"
    and "length (spec_stream vd vc vs) \<le> buffer_size \<Longrightarrow> R = length (spec_stream vd vc vs)"
proof -
  define bv where "bv = spec_block_vertices vs"
  define blocks where "blocks = spec_blocks_from vd vc vs bv 0"
  define tail where "tail = spec_tail vd vc vs"
  have bv: "0 < bv" "bv \<le> 256" unfolding bv_def using vs(1,2) by (rule spec_block_vertices_bounds)+
  have sl: "length (spec_stream vd vc vs) = 1 + length blocks + max vs 32"
    unfolding blocks_def bv_def using vd by (rule spec_stream_length)
  have lt: "length tail = max vs 32" unfolding tail_def using vd by (simp add: spec_tail_length)
  have st: "spec_stream vd vc vs = [0xA1] @ blocks @ tail"
    by (simp add: spec_stream_def blocks_def bv_def tail_def)
  have all: "(length (bytes d') = length (bytes d) \<and> aborted d' = aborted d \<and>
      overrun d' = overrun d) \<and>
    (R \<noteq> 0 \<longrightarrow> R = length (spec_stream vd vc vs) \<and> R \<le> buffer_size \<and>
       take R (bytes d') = spec_stream vd vc vs) \<and>
    (length (spec_stream vd vc vs) \<le> buffer_size \<longrightarrow> R = length (spec_stream vd vc vs))"
  proof (cases "1 + vs \<le> buffer_size")
    case False
    have sd: "size_diff buffer_size 0 = buffer_size"
      using size_diff_le [of 0 buffer_size] dst(2) by simp
    have "encodeV1 d buffer_size vd vc vs = (d, 0)"
      using vs False by (simp add: encodeV1_def sd)
    with run have "d' = d" "R = 0" by simp_all
    then show ?thesis using False sl by simp
  next
    case True
    define d1 where "d1 = store d 0 0xA1"
    have pos: "0 < length (bytes d)" using True dst(1) by simp
    have d1: "length (bytes d1) = buffer_size" "aborted d1 = aborted d" "overrun d1 = overrun d"
      "take 1 (bytes d1) = [0xA1]"
      using pos dst(1) store_take1 [of d "0xA1"] by (simp_all add: d1_def store_overrun)
    obtain d2 r lv2 where eb: "encodeV1_blocks d1 1 buffer_size vd vc vs
       (spec_first_vertex vd vc vs @ replicate (256 - vs) 0) bv 0 = (d2, r, lv2)"
      by (cases "encodeV1_blocks d1 1 buffer_size vd vc vs
       (spec_first_vertex vd vc vs @ replicate (256 - vs) 0) bv 0") auto
    note unf = encodeV1_unfold [OF vs vd True dst(2) eb [unfolded d1_def bv_def]]
    have bl0: "encodeV1_blocks d1 1 buffer_size vd vc vs
       (spec_first_vertex vd vc vs @ replicate (256 - vs) 0) bv (0 * bv) = (d2, r, lv2)"
      using eb by simp
    have pr: "0 * bv < vc \<longrightarrow> spec_first_vertex vd vc vs @ replicate (256 - vs) 0 =
        spec_predictor vd vs (if (0 :: nat) = 0 then 0 else 0 * bv - 1)"
      by (simp add: spec_first_vertex_def spec_predictor_def)
    have one: "1 \<le> buffer_size" using True by simp
    note bl = blocks_loop [OF bv vs(1,2) vd dst(2) refl pr d1(1) one bl0]
    have m: "24 \<le> max vs 32" by simp
    show ?thesis
    proof (cases r)
      case None
      with unf run have "d' = d2" "R = 0" by simp_all
      moreover have "\<not> 1 + length blocks + 24 \<le> buffer_size"
        using bl None by (simp add: blocks_def)
      ultimately show ?thesis using bl d1 sl dst(1) m by simp
    next
      case (Some p)
      have bs: "p = 1 + length (spec_blocks_from vd vc vs bv 0) \<and> p \<le> buffer_size \<and>
         take p (bytes d2) = take 1 (bytes d1) @ spec_blocks_from vd vc vs bv 0"
        using bl Some by blast
      have p: "p = 1 + length blocks" "p \<le> buffer_size"
        using bs unfolding blocks_def by blast+
      have tp: "take p (bytes d2) = [0xA1] @ blocks"
        using bs unfolding blocks_def d1(4) by blast
      have sd: "size_diff buffer_size p = buffer_size - p"
        using p(2) dst(2) by (rule size_diff_le)
      show ?thesis
      proof (cases "buffer_size - p < max vs 32")
        case True
        then have "encodeV1 d buffer_size vd vc vs = (d2, 0)"
          unfolding unf Some by (simp add: sd)
        with run have "d' = d2" "R = 0" by simp_all
        then show ?thesis using bl d1 sl True p dst(1) by simp
      next
        case False
        then have fit: "p + max vs 32 \<le> buffer_size" by simp
        then have "p + max vs 32 < 2 ^ 64" using dst(2) by (rule le_less_trans)
        then have sd2: "size_diff (p + max vs 32) 0 = p + max vs 32"
          using size_diff_le [of 0 "p + max vs 32"] by simp
        have "encodeV1 d buffer_size vd vc vs = (blit d2 p tail, p + max vs 32)"
          unfolding unf Some using False fit
          by (simp add: sd sd2 assert_that_def tail_def)
        with run have dr: "d' = blit d2 p tail" "R = p + max vs 32" by simp_all
        have room: "p + length tail \<le> length (bytes d2)" using fit lt bl d1(1) by simp
        have "take (p + length tail) (bytes (blit d2 p tail)) = take p (bytes d2) @ tail"
          using room by (rule blit_content)
        then have "take R (bytes d') = spec_stream vd vc vs"
          unfolding dr lt [symmetric] tp st by simp
        moreover have "overrun d' = overrun d2" unfolding dr using room by (rule blit_overrun)
        ultimately show ?thesis
          using dr bl d1 sl p fit dst(1) by simp
      qed
    qed
  qed
  show "length (bytes d') = length (bytes d) \<and> aborted d' = aborted d \<and> overrun d' = overrun d"
    using all by blast
  show "R \<noteq> 0 \<Longrightarrow> R = length (spec_stream vd vc vs) \<and> R \<le> buffer_size \<and>
           take R (bytes d') = spec_stream vd vc vs"
    using all by blast
  show "length (spec_stream vd vc vs) \<le> buffer_size \<Longrightarrow> R = length (spec_stream vd vc vs)"
    using all by blast
qed

lemma spec_fixed_field:
  assumes "b = 2 \<or> b = 4" "length g = 16" "i < 16"
  shows "take_bit b (drop_bit (b * (8 div b - 1 - i mod (8 div b)))
           (spec_fixed b g ! (i div (8 div b)))) = spec_field b (g ! i)"
proof -
  define bs where "bs = 8 div b"
  define k where "k = i div bs"
  define vs where "vs = take bs (drop (k * bs) g)"
  have bs: "0 < bs" "b * bs = 8" "16 div bs * bs = 16" using assms(1) by (auto simp: bs_def)
  have k: "k < 16 div bs" using assms(3) bs unfolding k_def
    by (metis less_mult_imp_div_less)
  then have "Suc k * bs \<le> 16 div bs * bs" by (intro mult_le_mono1) simp
  then have kb: "k * bs + bs \<le> 16" using bs(3) by simp
  then have lv: "length vs = bs" using assms(2) by (simp add: vs_def)
  have f: "spec_fixed b g ! k = spec_pack b vs"
    using k by (simp add: spec_fixed_def bs_def [symmetric] vs_def)
  have t: "i mod bs < length vs" using bs(1) lv by simp
  have "k * bs + i mod bs = i" by (simp add: k_def)
  then have nth: "vs ! (i mod bs) = g ! i"
    using t lv kb assms(2) by (simp add: vs_def)
  have "take_bit b (drop_bit (b * (length vs - 1 - i mod bs)) (spec_pack b vs)) =
      spec_field b (vs ! (i mod bs))"
    using assms(1) bs(2) lv t by (intro spec_pack_field) auto
  then have "take_bit b (drop_bit (b * (bs - 1 - i mod bs)) (spec_fixed b g ! (i div bs))) =
      spec_field b (g ! i)"
    unfolding lv nth f [symmetric] k_def .
  then show ?thesis unfolding bs_def .
qed

text \<open>
  C3. For a 16-byte group and a width \<open>b\<close> of 2 or 4, \<open>encodeBytesGroupTry\<close> writes at
  the cursor exactly \<open>16 / (8 / b)\<close> fixed bytes followed by the escape bytes, and
  returns the cursor behind them. Input value \<open>i\<close> occupies field \<open>i mod (8 / b)\<close>,
  counted from the most significant end, of fixed byte \<open>i div (8 / b)\<close>, and the field
  holds the value, or the sentinel \<open>2 ^ b - 1\<close> when the value is not below the
  sentinel. The escape bytes are the input bytes that are not below the sentinel, in
  ascending index order. For \<open>b = 8\<close> the 16 bytes are written verbatim.
\<close>

theorem encodeBytesGroupTry_layout:
  assumes "b = 2 \<or> b = 4 \<or> b = 8" and "16 \<le> length buffer"
  shows "if b = 8 then
           encodeBytesGroupTry d data buffer b =
             (blit d data (take 16 buffer), Some (data + 16))
         else
           encodeBytesGroupTry d data buffer b =
             (blit d data (spec_fixed b (take 16 buffer) @ spec_escapes b (take 16 buffer)),
              Some (data + 16 div (8 div b) + length (spec_escapes b (take 16 buffer)))) \<and>
           length (spec_fixed b (take 16 buffer)) = 16 div (8 div b) \<and>
           (\<forall>i<16. take_bit b (drop_bit (b * (8 div b - 1 - i mod (8 div b)))
                       (spec_fixed b (take 16 buffer) ! (i div (8 div b)))) =
                    (if take 16 buffer ! i \<ge> 2 ^ b - 1 then 2 ^ b - 1 else take 16 buffer ! i)) \<and>
           spec_escapes b (take 16 buffer) =
             filter (\<lambda>v. v \<ge> 2 ^ b - 1) (take 16 buffer)"
proof (cases "b = 8")
  case True
  then show ?thesis by (simp add: encodeBytesGroupTry_8 spec_group_def)
next
  case False
  then have b: "b = 2 \<or> b = 4" using assms(1) by simp
  have lg: "length (take 16 buffer) = 16" using assms(2) by simp
  have "encodeBytesGroupTry d data buffer b =
      (blit d data (spec_fixed b (take 16 buffer) @ spec_escapes b (take 16 buffer)),
       Some (data + 16 div (8 div b) + length (spec_escapes b (take 16 buffer))))"
    using encodeBytesGroupTry_24 [OF b assms(2), of d data] b
    by (auto simp add: spec_group_def spec_fixed_length)
  moreover have "\<forall>i<16. take_bit b (drop_bit (b * (8 div b - 1 - i mod (8 div b)))
                       (spec_fixed b (take 16 buffer) ! (i div (8 div b)))) =
                    (if take 16 buffer ! i \<ge> 2 ^ b - 1 then 2 ^ b - 1 else take 16 buffer ! i)"
    using spec_fixed_field [OF b lg] unfolding spec_field_def by blast
  ultimately show ?thesis using False
    by (simp add: spec_fixed_length spec_escapes_def)
qed

theorem encodeBytesGroupTry_layout_witness:
  "16 \<le> length [0, 1, 2, 3, 4, 0, 0, 0, 0, 0, 0, 0, 0, 0, 0, 255 :: u8] \<and>
   encodeBytesGroupTry \<lparr>bytes = replicate 24 0, overrun = False, aborted = False\<rparr> 0
       [0, 1, 2, 3, 4, 0, 0, 0, 0, 0, 0, 0, 0, 0, 0, 255] 2 =
     (blit \<lparr>bytes = replicate 24 0, overrun = False, aborted = False\<rparr> 0
        [0x1B, 0xC0, 0, 3, 3, 4, 255], Some 7)"
proof -
  have h: "16 \<le> length [0, 1, 2, 3, 4, 0, 0, 0, 0, 0, 0, 0, 0, 0, 0, 255 :: u8]" by simp
  have f: "spec_fixed 2 [0, 1, 2, 3, 4, 0, 0, 0, 0, 0, 0, 0, 0, 0, 0, 255] = [0x1B, 0xC0, 0, 3]"
    by code_simp
  have e: "spec_escapes 2 [0, 1, 2, 3, 4, 0, 0, 0, 0, 0, 0, 0, 0, 0, 0, 255] = [3, 4, 255]"
    by code_simp
  have "(2 :: nat) = 2 \<or> (2 :: nat) = 4 \<or> (2 :: nat) = 8" by simp
  from encodeBytesGroupTry_layout [OF this h,
      of "\<lparr>bytes = replicate 24 0, overrun = False, aborted = False\<rparr>" 0]
  have "encodeBytesGroupTry \<lparr>bytes = replicate 24 0, overrun = False, aborted = False\<rparr> 0
       [0, 1, 2, 3, 4, 0, 0, 0, 0, 0, 0, 0, 0, 0, 0, 255] 2 =
     (blit \<lparr>bytes = replicate 24 0, overrun = False, aborted = False\<rparr> 0
        [0x1B, 0xC0, 0, 3, 3, 4, 255], Some 7)"
    by (simp add: f e del: blit.simps replicate.simps)
  with h show ?thesis by blast
qed

lemma spec_select_one: "fst (spec_select g) = 1 \<longleftrightarrow> list_all (\<lambda>v. v = 0) g"
  by (simp add: spec_select_def spec_try_def spec_representable_def spec_group_def)

text \<open>
  C7. At width 1 \<open>encodeBytesGroupTry\<close> writes nothing and returns the cursor unchanged
  when all 16 bytes of the group are zero, and returns null otherwise. The search of
  the group-sequence encoder (with the 24 bytes of room its check guarantees) selects
  width 1 exactly for the all-zero groups, and the width it selects is always one at
  which \<open>encodeBytesGroupTry\<close> succeeds on the group: a width at which the group is not
  representable is never selected.
\<close>

theorem width_one_iff_all_zero:
  assumes "16 \<le> length buffer" and "data + kByteGroupDecodeLimit \<le> length (bytes d)"
    and "length (bytes d) < 2 ^ 64"
  shows "encodeBytesGroupTry d data buffer 1 =
           (d, if list_all (\<lambda>v. v = 0) (take 16 buffer) then Some data else None) \<and>
         (fst (snd (encodeBytes_best d data buffer)) = 1
            \<longleftrightarrow> list_all (\<lambda>v. v = 0) (take 16 buffer)) \<and>
         snd (encodeBytesGroupTry d' data buffer (fst (snd (encodeBytes_best d data buffer))))
            \<noteq> None"
proof -
  have "data + 24 \<le> length (bytes d)" using assms(2) by (simp add: kByteGroupDecodeLimit_def)
  then have d64: "data + 24 < 2 ^ 64" using assms(3) by (rule le_less_trans)
  have best: "snd (encodeBytes_best d data buffer) = spec_select (take 16 buffer)"
    by (simp add: encodeBytes_best_eq [OF assms(1) d64])
  have bb: "fst (spec_select (take 16 buffer)) = 1 \<or> fst (spec_select (take 16 buffer)) = 2 \<or>
      fst (spec_select (take 16 buffer)) = 4 \<or> fst (spec_select (take 16 buffer)) = 8"
    using spec_select_cases [of "take 16 buffer"] by simp
  have "snd (encodeBytesGroupTry d' data buffer (fst (spec_select (take 16 buffer)))) \<noteq> None"
    using encodeBytesGroupTry_eq [OF bb assms(1), of d' data]
      spec_select_representable [of "take 16 buffer"] by simp
  then show ?thesis
    using encodeBytesGroupTry_1 [OF assms(1), of d data] spec_select_one [of "take 16 buffer"]
    by (simp add: best spec_representable_def)
qed

theorem width_one_iff_all_zero_witness:
  "16 \<le> length (replicate 16 (0 :: u8)) \<and>
   0 + kByteGroupDecodeLimit
     \<le> length (bytes \<lparr>bytes = replicate 24 0, overrun = False, aborted = False\<rparr>) \<and>
   length (bytes \<lparr>bytes = replicate 24 0, overrun = False, aborted = False\<rparr>) < 2 ^ 64 \<and>
   encodeBytesGroupTry \<lparr>bytes = replicate 24 0, overrun = False, aborted = False\<rparr> 0
      (replicate 16 0) 1
     = (\<lparr>bytes = replicate 24 0, overrun = False, aborted = False\<rparr>, Some 0) \<and>
   fst (snd (encodeBytes_best \<lparr>bytes = replicate 24 0, overrun = False, aborted = False\<rparr> 0
      (replicate 16 0))) = 1"
proof -
  have h1: "16 \<le> length (replicate 16 (0 :: u8))" by simp
  have h2: "0 + kByteGroupDecodeLimit
     \<le> length (bytes \<lparr>bytes = replicate 24 0, overrun = False, aborted = False\<rparr>)"
    by (simp add: kByteGroupDecodeLimit_def)
  have h3: "length (bytes \<lparr>bytes = replicate 24 0, overrun = False, aborted = False\<rparr>) < 2 ^ 64"
    by simp
  have z: "list_all (\<lambda>v. v = 0) (take 16 (replicate 16 (0 :: u8)))"
    by (simp add: list_all_iff)
  show ?thesis
    using width_one_iff_all_zero [OF h1 h2 h3] h1 h2 h3 z
    by (simp only: if_True simp_thms)
qed

lemma encodeBytes_overrun:
  assumes "n mod 16 = 0" "n \<le> length src" "length (bytes d) = data_end" "data_end < 2 ^ 64"
    "data \<le> data_end"
  shows "overrun (fst (encodeBytes d data data_end src n)) = overrun d"
proof -
  have n: "n = 16 * (n div 16)" using assms(1) by auto
  obtain d' r where run: "encodeBytes d data data_end src n = (d', r)"
    by (cases "encodeBytes d data data_end src n")
  show ?thesis using encodeBytes_run(1) [OF n assms(2-5) run] run by simp
qed

text \<open>
  C5 (amended). For a 16-byte group and a width \<open>b\<close> of 1, 2, 4 or 8,
  \<open>encodeBytesGroupTry\<close> succeeds at widths 2, 4 and 8, and at width 1 exactly when the
  group is all zero. A successful \<open>encodeBytesGroupTry\<close> advances the cursor by exactly 0
  bytes at width 1, by at most \<open>16 + 16 / (8 / b)\<close> bytes at widths 2 and 4, and by exactly
  16 bytes at width 8; in every case by at most \<open>kByteGroupDecodeLimit = 24\<close> bytes, and
  with 24 bytes of room it writes nothing beyond the destination. Therefore
  \<open>encodeBytes\<close>, which checks for 24 bytes of room before each group, never writes at or
  past \<open>data_end\<close>: on a destination that ends at \<open>data_end\<close> the overrun flag is never
  raised.
\<close>

theorem group_advance_bound:
  assumes "b = 1 \<or> b = 2 \<or> b = 4 \<or> b = 8" and "16 \<le> length buffer"
    and "n mod 16 = 0" and "n \<le> length src"
    and "length (bytes d) = data_end" and "data_end < 2 ^ 64" and "data \<le> data_end"
  shows "(\<forall>p. snd (encodeBytesGroupTry d data buffer b) = Some p \<longrightarrow>
            data \<le> p \<and>
            (b = 1 \<longrightarrow> p = data) \<and>
            (b = 8 \<longrightarrow> p = data + 16) \<and>
            (b = 2 \<or> b = 4 \<longrightarrow> p - data \<le> 16 + 16 div (8 div b)) \<and>
            p - data \<le> (if b = 1 then 0 else if b = 8 then 16 else 16 + 16 div (8 div b)) \<and>
            p - data \<le> kByteGroupDecodeLimit) \<and>
         (b \<noteq> 1 \<longrightarrow> snd (encodeBytesGroupTry d data buffer b) \<noteq> None) \<and>
         (b = 1 \<longrightarrow> (snd (encodeBytesGroupTry d data buffer b) \<noteq> None) =
                        list_all (\<lambda>v. v = 0) (take 16 buffer)) \<and>
         (data + kByteGroupDecodeLimit \<le> data_end \<longrightarrow>
            overrun (fst (encodeBytesGroupTry d data buffer b)) = overrun d) \<and>
         overrun (fst (encodeBytes d data data_end src n)) = overrun d"
proof -
  have lg: "length (take 16 buffer) = 16" using assms(2) by simp
  note l = spec_group_length [OF lg, of b] spec_group_length_24 [OF lg assms(1)]
  have l8: "length (spec_group 8 (take 16 buffer)) = 16" using lg by (simp add: spec_group_def)
  have l1: "length (spec_group 1 (take 16 buffer)) = 0" by (simp add: spec_group_def)
  have room: "data + kByteGroupDecodeLimit \<le> data_end \<Longrightarrow>
      data + length (spec_group b (take 16 buffer)) \<le> length (bytes d)"
    using l(2) assms(5) by (simp add: kByteGroupDecodeLimit_def)
  have adv: "\<forall>p. snd (encodeBytesGroupTry d data buffer b) = Some p \<longrightarrow>
            data \<le> p \<and>
            (b = 1 \<longrightarrow> p = data) \<and>
            (b = 8 \<longrightarrow> p = data + 16) \<and>
            (b = 2 \<or> b = 4 \<longrightarrow> p - data \<le> 16 + 16 div (8 div b)) \<and>
            p - data \<le> (if b = 1 then 0 else if b = 8 then 16 else 16 + 16 div (8 div b)) \<and>
            p - data \<le> kByteGroupDecodeLimit"
    using l l8 l1
    by (auto simp add: encodeBytesGroupTry_eq [OF assms(1,2)] kByteGroupDecodeLimit_def)
  have ok: "b \<noteq> 1 \<longrightarrow> snd (encodeBytesGroupTry d data buffer b) \<noteq> None"
    by (simp add: encodeBytesGroupTry_eq [OF assms(1,2)] spec_representable_def)
  have ok1: "b = 1 \<longrightarrow> (snd (encodeBytesGroupTry d data buffer b) \<noteq> None) =
                        list_all (\<lambda>v. v = 0) (take 16 buffer)"
    using encodeBytesGroupTry_eq [OF assms(1,2), of d data]
    by (auto simp add: spec_representable_def split: if_splits)
  have ov: "data + kByteGroupDecodeLimit \<le> data_end \<longrightarrow>
            overrun (fst (encodeBytesGroupTry d data buffer b)) = overrun d"
    using room by (simp add: encodeBytesGroupTry_eq [OF assms(1,2)] blit_overrun)
  show ?thesis
    using adv ok ok1 ov encodeBytes_overrun [OF assms(3-7)] by blast
qed

theorem group_advance_bound_witness:
  "((2 :: nat) = 1 \<or> (2 :: nat) = 2 \<or> (2 :: nat) = 4 \<or> (2 :: nat) = 8) \<and>
   ((8 :: nat) = 1 \<or> (8 :: nat) = 2 \<or> (8 :: nat) = 4 \<or> (8 :: nat) = 8) \<and>
   16 \<le> length (replicate 16 (255 :: u8)) \<and> (16 :: nat) mod 16 = 0 \<and>
   length (bytes \<lparr>bytes = replicate 64 0, overrun = False, aborted = False\<rparr>) = 64 \<and>
   (64 :: nat) < 2 ^ 64 \<and> (0 :: nat) \<le> 64 \<and>
   (\<exists>p. snd (encodeBytesGroupTry \<lparr>bytes = replicate 64 0, overrun = False, aborted = False\<rparr>
      0 (replicate 16 255) 2) = Some p \<and> p \<le> 20) \<and>
   snd (encodeBytesGroupTry \<lparr>bytes = replicate 64 0, overrun = False, aborted = False\<rparr>
      0 (replicate 16 255) 8) = Some 16 \<and>
   overrun (fst (encodeBytesGroupTry \<lparr>bytes = replicate 64 0, overrun = False, aborted = False\<rparr>
      0 (replicate 16 255) 2)) = False \<and>
   overrun (fst (encodeBytes \<lparr>bytes = replicate 64 0, overrun = False, aborted = False\<rparr>
      0 64 (replicate 16 255) 16)) = False"
proof -
  define d0 where "d0 = \<lparr>bytes = replicate 64 (0 :: u8), overrun = False, aborted = False\<rparr>"
  have h1: "(2 :: nat) = 1 \<or> (2 :: nat) = 2 \<or> (2 :: nat) = 4 \<or> (2 :: nat) = 8" by simp
  have h1': "(8 :: nat) = 1 \<or> (8 :: nat) = 2 \<or> (8 :: nat) = 4 \<or> (8 :: nat) = 8" by simp
  have h2: "16 \<le> length (replicate 16 (255 :: u8))" by simp
  have h3: "(16 :: nat) mod 16 = 0" by simp
  have h5: "length (bytes d0) = 64" by (simp add: d0_def)
  have h6: "(64 :: nat) < 2 ^ 64" by simp
  have h7: "(0 :: nat) \<le> 64" by simp
  have k: "0 + kByteGroupDecodeLimit \<le> 64" by (simp add: kByteGroupDecodeLimit_def)
  note t2 = group_advance_bound [OF h1 h2 h3 h2 h5 h6 h7]
  note t8 = group_advance_bound [OF h1' h2 h3 h2 h5 h6 h7]
  have "snd (encodeBytesGroupTry d0 0 (replicate 16 255) 2) \<noteq> None" using t2 by simp
  then obtain p where p: "snd (encodeBytesGroupTry d0 0 (replicate 16 255) 2) = Some p" by blast
  have "p - 0 \<le> 16 + 16 div (8 div (2 :: nat))" using t2 p by blast
  then have p20: "p \<le> 20" by simp
  have "snd (encodeBytesGroupTry d0 0 (replicate 16 255) 8) \<noteq> None" using t8 by simp
  then obtain q where q: "snd (encodeBytesGroupTry d0 0 (replicate 16 255) 8) = Some q" by blast
  have "q = 0 + 16" using t8 q by blast
  then have q16: "snd (encodeBytesGroupTry d0 0 (replicate 16 255) 8) = Some 16" using q by simp
  have o2: "overrun (fst (encodeBytesGroupTry d0 0 (replicate 16 255) 2)) = False"
    using t2 k by (simp add: d0_def)
  have o: "overrun (fst (encodeBytes d0 0 64 (replicate 16 255) 16)) = False"
    using t2 by (simp add: d0_def)
  show ?thesis
    using h1 h1' h2 h3 h5 h6 h7 p p20 q16 o2 o unfolding d0_def by blast
qed

theorem group_advance_formula_counterexample:
  "snd (encodeBytesGroupTry \<lparr>bytes = replicate 64 0, overrun = False, aborted = False\<rparr> 0
      (replicate 16 0) 8) = Some (0 + 16) \<and>
   \<not> (16 + 16 div (8 div (8 :: nat)) \<le> kByteGroupDecodeLimit)"
  by (simp add: encodeBytesGroupTry_8 kByteGroupDecodeLimit_def)

lemma take_split3:
  assumes "take p xs = a @ h @ q"
  shows "take (length h) (drop (length a) xs) = h"
    and "take (length q) (drop (length a + length h) xs) = q"
proof -
  have "xs = (a @ h @ q) @ drop p xs" using assms by (metis append_take_drop_id)
  then have x: "xs = a @ h @ q @ drop p xs" by simp
  show "take (length h) (drop (length a) xs) = h" by (subst x) simp
  show "take (length q) (drop (length a + length h) xs) = q" by (subst x) simp
qed

lemma spec_select_first_min:
  assumes "length g = 16" "b = 1 \<or> b = 2 \<or> b = 4 \<or> b = 8" "spec_representable b g"
  shows "snd (spec_select g) \<le> length (spec_group b g)"
    and "length (spec_group b g) = snd (spec_select g) \<Longrightarrow> fst (spec_select g) mod 8 \<le> b mod 8"
proof -
  have l8: "length (spec_group 8 g) = 16" using assms(1) by (simp add: spec_group_def)
  have r: "spec_representable 2 g" "spec_representable 4 g" "spec_representable 8 g"
    by (simp_all add: spec_representable_def)
  have l1: "length (spec_group 1 g) = 0" by (simp add: spec_group_def)
  show "snd (spec_select g) \<le> length (spec_group b g)"
    using assms(2,3) l8 l1 r
    by (auto simp add: spec_select_def spec_try_def)
  show "length (spec_group b g) = snd (spec_select g) \<Longrightarrow> fst (spec_select g) mod 8 \<le> b mod 8"
    using assms(2,3) l8 l1 r
    by (auto simp add: spec_select_def spec_try_def split: if_splits)
qed

lemma spec_encodeBytes_length:
  "length (spec_encodeBytes buffer n) =
     (n div 16 + 3) div 4 + length (payloads buffer 0 (n div 16))"
  by (simp add: spec_encodeBytes_def Let_def)

lemma encodeBytes_layout_run:
  assumes "n mod 16 = 0" and "n \<le> length buffer"
    and "length (bytes d) = data_end" and "data_end < 2 ^ 64" and "data \<le> data_end"
    and "encodeBytes d data data_end buffer n = (d', Some p)"
  shows "take data (bytes d') = take data (bytes d) \<and>
         p = data + (n div 16 + 3) div 4 + length (payloads buffer 0 (n div 16)) \<and>
         p \<le> data_end \<and>
         (\<forall>k < n div 16.
            take_bit 2 (drop_bit (2 * (k mod 4)) (bytes d' ! (data + k div 4))) =
              of_nat (spec_code (fst (spec_select (group_at buffer k))))) \<and>
         (\<forall>k. n div 16 \<le> k \<and> k < 4 * ((n div 16 + 3) div 4) \<longrightarrow>
            take_bit 2 (drop_bit (2 * (k mod 4)) (bytes d' ! (data + k div 4))) = 0) \<and>
         take (length (payloads buffer 0 (n div 16)))
              (drop (data + (n div 16 + 3) div 4) (bytes d')) =
           concat (map (\<lambda>k. spec_group (fst (spec_select (group_at buffer k)))
                                (group_at buffer k)) [0..<n div 16]) \<and>
         (\<forall>k < n div 16. \<forall>b.
            (b = 1 \<or> b = 2 \<or> b = 4 \<or> b = 8) \<and> spec_representable b (group_at buffer k) \<longrightarrow>
              snd (spec_select (group_at buffer k)) =
                length (spec_group (fst (spec_select (group_at buffer k))) (group_at buffer k)) \<and>
              snd (spec_select (group_at buffer k)) \<le> length (spec_group b (group_at buffer k)) \<and>
              (length (spec_group b (group_at buffer k)) = snd (spec_select (group_at buffer k))
                 \<longrightarrow> fst (spec_select (group_at buffer k)) mod 8 \<le> b mod 8))"
proof -
  define G where "G = n div 16"
  define hs where "hs = (G + 3) div 4"
  define H where "H = headers (replicate hs 0) 0 buffer 0 G"
  have n: "n = 16 * G" using assms(1) by (auto simp: G_def)
  note run = encodeBytes_run [OF n assms(2-6)]
  have p: "p = data + length (spec_encodeBytes buffer n)" "p \<le> data_end"
    and tp: "take p (bytes d') = take data (bytes d) @ spec_encodeBytes buffer n"
    using run(2) [OF refl] by blast+
  have lH: "length H = hs" by (simp add: H_def)
  have ld: "length (take data (bytes d)) = data" using assms(3,5) by simp
  have tp': "take p (bytes d') = take data (bytes d) @ H @ payloads buffer 0 G"
    using tp by (simp add: spec_encodeBytes_def G_def [symmetric] hs_def [symmetric] H_def Let_def)
  note sp = take_split3 [OF tp', unfolded ld lH]
  have hb: "bytes d' ! (data + j) = H ! j" if "j < hs" for j
  proof -
    have "H ! j = take hs (drop data (bytes d')) ! j" by (simp only: sp(1))
    also have "\<dots> = bytes d' ! (data + j)"
    proof -
      have "data + hs \<le> p" using p(1) by (simp add: spec_encodeBytes_length G_def hs_def)
      then have "data + hs \<le> length (bytes d')" using p(2) run(1) assms(3) by simp
      then show ?thesis using that by simp
    qed
    finally show ?thesis by simp
  qed
  have sl: "take_bit 2 (drop_bit (2 * (k mod 4)) (bytes d' ! (data + k div 4))) =
      (if k < G then of_nat (spec_code (fst (spec_select (group_at buffer k)))) else 0)"
    if "k < 4 * hs" for k
  proof -
    have "k div 4 < hs" using that by simp
    then show ?thesis
      using slot_headers [of k G buffer] that
      by (simp add: hb slot_def H_def hs_def)
  qed
  have kG: "k < 4 * hs" if "k < G" for k using that by (simp add: hs_def)
  have lg: "length (group_at buffer k) = 16" if "k < G" for k
  proof -
    have "16 * Suc k \<le> 16 * G" using that by simp
    then show ?thesis using n assms(2) by (simp add: group_at_def)
  qed
  have sel: "snd (spec_select (group_at buffer k)) =
        length (spec_group (fst (spec_select (group_at buffer k))) (group_at buffer k)) \<and>
      snd (spec_select (group_at buffer k)) \<le> length (spec_group b (group_at buffer k)) \<and>
      (length (spec_group b (group_at buffer k)) = snd (spec_select (group_at buffer k))
         \<longrightarrow> fst (spec_select (group_at buffer k)) mod 8 \<le> b mod 8)"
    if "k < G" "b = 1 \<or> b = 2 \<or> b = 4 \<or> b = 8" "spec_representable b (group_at buffer k)"
    for k b
    using spec_select_snd [OF lg [OF that(1)]] spec_select_first_min [OF lg [OF that(1)] that(2,3)]
    by blast
  have main: "take data (bytes d') = take data (bytes d) \<and>
         p = data + hs + length (payloads buffer 0 G) \<and>
         p \<le> data_end \<and>
         (\<forall>k < G.
            take_bit 2 (drop_bit (2 * (k mod 4)) (bytes d' ! (data + k div 4))) =
              of_nat (spec_code (fst (spec_select (group_at buffer k))))) \<and>
         (\<forall>k. G \<le> k \<and> k < 4 * hs \<longrightarrow>
            take_bit 2 (drop_bit (2 * (k mod 4)) (bytes d' ! (data + k div 4))) = 0) \<and>
         take (length (payloads buffer 0 G)) (drop (data + hs) (bytes d')) =
           concat (map (\<lambda>k. spec_group (fst (spec_select (group_at buffer k)))
                                (group_at buffer k)) [0..<G])"
    using run(1) p sl kG sp(2)
    by (simp add: spec_encodeBytes_length G_def [symmetric] hs_def [symmetric]
        payloads_def spec_payload_def)
  show ?thesis
    using main sel unfolding hs_def G_def by blast
qed

text \<open>
  C2. For a source buffer of \<open>n\<close> bytes, \<open>n\<close> a multiple of 16, \<open>encodeBytes\<close> succeeds
  whenever the destination has room for the output and 24 bytes more, and a successful
  \<open>encodeBytes\<close> leaves the bytes before the cursor untouched and writes \<open>ceil(groups / 4)\<close>
  header bytes followed by the payloads of the groups in order. The payload of a group is
  its encoding at the selected width. The selected width is one of 1, 2, 4, 8, represents
  the group, has the smallest encoded size among the widths that represent the group, and
  among the widths of that size it is the first in the order 8, 1, 2, 4 (a candidate
  replaces the best so far only when strictly smaller). The 2-bit slot \<open>k mod 4\<close> of header
  byte \<open>k div 4\<close>, slots counted from the low-order end, holds the log2 code of the width
  of group \<open>k\<close>, and the slots behind the last group are zero.
\<close>

theorem encodeBytes_layout:
  assumes "n mod 16 = 0" and "n \<le> length buffer"
    and "length (bytes d) = data_end" and "data_end < 2 ^ 64" and "data \<le> data_end"
  shows "(data + (n div 16 + 3) div 4 + length (payloads buffer 0 (n div 16)) + 24 \<le> data_end \<longrightarrow>
            snd (encodeBytes d data data_end buffer n) =
              Some (data + (n div 16 + 3) div 4 + length (payloads buffer 0 (n div 16)))) \<and>
         (\<forall>p. snd (encodeBytes d data data_end buffer n) = Some p \<longrightarrow>
            take data (bytes (fst (encodeBytes d data data_end buffer n))) = take data (bytes d) \<and>
            p = data + (n div 16 + 3) div 4 + length (payloads buffer 0 (n div 16)) \<and>
            p \<le> data_end \<and>
            (\<forall>k < n div 16.
               take_bit 2 (drop_bit (2 * (k mod 4))
                 (bytes (fst (encodeBytes d data data_end buffer n)) ! (data + k div 4))) =
                 of_nat (spec_code (fst (spec_select (group_at buffer k))))) \<and>
            (\<forall>k. n div 16 \<le> k \<and> k < 4 * ((n div 16 + 3) div 4) \<longrightarrow>
               take_bit 2 (drop_bit (2 * (k mod 4))
                 (bytes (fst (encodeBytes d data data_end buffer n)) ! (data + k div 4))) = 0) \<and>
            take (length (payloads buffer 0 (n div 16)))
                 (drop (data + (n div 16 + 3) div 4)
                    (bytes (fst (encodeBytes d data data_end buffer n)))) =
              concat (map (\<lambda>k. spec_group (fst (spec_select (group_at buffer k)))
                                   (group_at buffer k)) [0..<n div 16])) \<and>
         (\<forall>k < n div 16.
            (fst (spec_select (group_at buffer k)) = 1 \<or> fst (spec_select (group_at buffer k)) = 2 \<or>
             fst (spec_select (group_at buffer k)) = 4 \<or> fst (spec_select (group_at buffer k)) = 8) \<and>
            spec_representable (fst (spec_select (group_at buffer k))) (group_at buffer k) \<and>
            snd (spec_select (group_at buffer k)) =
              length (spec_group (fst (spec_select (group_at buffer k))) (group_at buffer k)) \<and>
            (\<forall>b. (b = 1 \<or> b = 2 \<or> b = 4 \<or> b = 8) \<and> spec_representable b (group_at buffer k) \<longrightarrow>
               snd (spec_select (group_at buffer k)) \<le> length (spec_group b (group_at buffer k)) \<and>
               (length (spec_group b (group_at buffer k)) = snd (spec_select (group_at buffer k))
                  \<longrightarrow> fst (spec_select (group_at buffer k)) mod 8 \<le> b mod 8)))"
proof -
  let ?E = "encodeBytes d data data_end buffer n"
  define G where "G = n div 16"
  have n: "n = 16 * G" using assms(1) by (auto simp: G_def)
  have run: "?E = (fst ?E, snd ?E)" by simp
  note r = encodeBytes_run [OF n assms(2-5) run]
  have ok: "snd ?E = Some (data + (n div 16 + 3) div 4 + length (payloads buffer 0 (n div 16)))"
    if room: "data + (n div 16 + 3) div 4 + length (payloads buffer 0 (n div 16)) + 24 \<le> data_end"
  proof -
    have "data + length (spec_encodeBytes buffer n) + 24 \<le> data_end"
      using room by (simp add: spec_encodeBytes_length)
    then have "snd ?E \<noteq> None" by (rule r(3))
    then obtain p where p: "snd ?E = Some p" by blast
    have "p = data + length (spec_encodeBytes buffer n)" using r(2) [OF p] by blast
    then show ?thesis using p by (simp add: spec_encodeBytes_length)
  qed
  have lay: "take data (bytes (fst ?E)) = take data (bytes d) \<and>
            p = data + (n div 16 + 3) div 4 + length (payloads buffer 0 (n div 16)) \<and>
            p \<le> data_end \<and>
            (\<forall>k < n div 16.
               take_bit 2 (drop_bit (2 * (k mod 4)) (bytes (fst ?E) ! (data + k div 4))) =
                 of_nat (spec_code (fst (spec_select (group_at buffer k))))) \<and>
            (\<forall>k. n div 16 \<le> k \<and> k < 4 * ((n div 16 + 3) div 4) \<longrightarrow>
               take_bit 2 (drop_bit (2 * (k mod 4)) (bytes (fst ?E) ! (data + k div 4))) = 0) \<and>
            take (length (payloads buffer 0 (n div 16)))
                 (drop (data + (n div 16 + 3) div 4) (bytes (fst ?E))) =
              concat (map (\<lambda>k. spec_group (fst (spec_select (group_at buffer k)))
                                   (group_at buffer k)) [0..<n div 16])"
    if p: "snd ?E = Some p" for p
  proof -
    have e: "?E = (fst ?E, Some p)" using run p by simp
    show ?thesis using encodeBytes_layout_run [OF assms e] by blast
  qed
  have lg: "length (group_at buffer k) = 16" if "k < n div 16" for k
  proof -
    have "16 * Suc k \<le> 16 * G" using that by (simp add: G_def)
    then show ?thesis using n assms(2) by (simp add: group_at_def)
  qed
  have sel: "(fst (spec_select (group_at buffer k)) = 1 \<or> fst (spec_select (group_at buffer k)) = 2 \<or>
             fst (spec_select (group_at buffer k)) = 4 \<or> fst (spec_select (group_at buffer k)) = 8) \<and>
            spec_representable (fst (spec_select (group_at buffer k))) (group_at buffer k) \<and>
            snd (spec_select (group_at buffer k)) =
              length (spec_group (fst (spec_select (group_at buffer k))) (group_at buffer k)) \<and>
            (\<forall>b. (b = 1 \<or> b = 2 \<or> b = 4 \<or> b = 8) \<and> spec_representable b (group_at buffer k) \<longrightarrow>
               snd (spec_select (group_at buffer k)) \<le> length (spec_group b (group_at buffer k)) \<and>
               (length (spec_group b (group_at buffer k)) = snd (spec_select (group_at buffer k))
                  \<longrightarrow> fst (spec_select (group_at buffer k)) mod 8 \<le> b mod 8))"
    if k: "k < n div 16" for k
  proof -
    have c: "fst (spec_select (group_at buffer k)) = 1 \<or> fst (spec_select (group_at buffer k)) = 2 \<or>
             fst (spec_select (group_at buffer k)) = 4 \<or> fst (spec_select (group_at buffer k)) = 8"
      using spec_select_cases [of "group_at buffer k"] by simp
    show ?thesis
      using c spec_select_representable [of "group_at buffer k"] spec_select_snd [OF lg [OF k]]
        spec_select_first_min [OF lg [OF k]]
      by blast
  qed
  show ?thesis using ok lay sel by blast
qed

theorem encodeBytes_layout_witness:
  "(48 :: nat) mod 16 = 0 \<and>
   48 \<le> length ([0, 2, 2, 5] @ replicate 12 0 @ replicate 16 255 @ replicate 16 (0 :: u8)) \<and>
   length (bytes \<lparr>bytes = replicate 64 7, overrun = False, aborted = False\<rparr>) = 64 \<and>
   (64 :: nat) < 2 ^ 64 \<and> (0 :: nat) \<le> 64 \<and>
   snd (encodeBytes \<lparr>bytes = replicate 64 7, overrun = False, aborted = False\<rparr> 0 64
        ([0, 2, 2, 5] @ replicate 12 0 @ replicate 16 255 @ replicate 16 0) 48) = Some 22 \<and>
   take_bit 2 (drop_bit (2 * (0 mod 4))
     (bytes (fst (encodeBytes \<lparr>bytes = replicate 64 7, overrun = False, aborted = False\<rparr> 0 64
        ([0, 2, 2, 5] @ replicate 12 0 @ replicate 16 255 @ replicate 16 0) 48)) ! (0 + 0 div 4))) = (1 :: u8) \<and>
   take_bit 2 (drop_bit (2 * (1 mod 4))
     (bytes (fst (encodeBytes \<lparr>bytes = replicate 64 7, overrun = False, aborted = False\<rparr> 0 64
        ([0, 2, 2, 5] @ replicate 12 0 @ replicate 16 255 @ replicate 16 0) 48)) ! (0 + 1 div 4))) = (3 :: u8) \<and>
   take_bit 2 (drop_bit (2 * (2 mod 4))
     (bytes (fst (encodeBytes \<lparr>bytes = replicate 64 7, overrun = False, aborted = False\<rparr> 0 64
        ([0, 2, 2, 5] @ replicate 12 0 @ replicate 16 255 @ replicate 16 0) 48)) ! (0 + 2 div 4))) = (0 :: u8) \<and>
   take_bit 2 (drop_bit (2 * (3 mod 4))
     (bytes (fst (encodeBytes \<lparr>bytes = replicate 64 7, overrun = False, aborted = False\<rparr> 0 64
        ([0, 2, 2, 5] @ replicate 12 0 @ replicate 16 255 @ replicate 16 0) 48)) ! (0 + 3 div 4))) = (0 :: u8) \<and>
   take 21 (drop 1
     (bytes (fst (encodeBytes \<lparr>bytes = replicate 64 7, overrun = False, aborted = False\<rparr> 0 64
        ([0, 2, 2, 5] @ replicate 12 0 @ replicate 16 255 @ replicate 16 0) 48)))) =
     [43, 0, 0, 0, 5] @ replicate 16 255"
proof -
  define d0 where "d0 = \<lparr>bytes = replicate 64 (7 :: u8), overrun = False, aborted = False\<rparr>"
  define buf where "buf = [0, 2, 2, 5] @ replicate 12 0 @ replicate 16 255 @ replicate 16 (0 :: u8)"
  let ?E = "encodeBytes d0 0 64 buf 48"
  have h1: "(48 :: nat) mod 16 = 0" by simp
  have h2: "48 \<le> length buf" by (simp add: buf_def)
  have h3: "length (bytes d0) = 64" by (simp add: d0_def)
  have h4: "(64 :: nat) < 2 ^ 64" by simp
  have h5: "(0 :: nat) \<le> 64" by simp
  have s0: "fst (spec_select (group_at buf 0)) = 2" unfolding buf_def by code_simp
  have s1: "fst (spec_select (group_at buf 1)) = 8" unfolding buf_def by code_simp
  have s2: "fst (spec_select (group_at buf 2)) = 1" unfolding buf_def by code_simp
  have pl: "payloads buf 0 3 = [43, 0, 0, 0, 5] @ replicate 16 255" unfolding buf_def by code_simp
  have cm: "concat (map (\<lambda>k. spec_group (fst (spec_select (group_at buf k))) (group_at buf k)) [0..<3]) =
      [43, 0, 0, 0, 5] @ replicate 16 255"
    using pl by (simp add: payloads_def spec_payload_def)
  note t = encodeBytes_layout [OF h1 h2 h3 h4 h5]
  have d: "(48 :: nat) div 16 = 3" by simp
  have r: "snd ?E = Some 22" using t [THEN conjunct1] by (simp add: pl)
  have lay: "(\<forall>k < 3. take_bit 2 (drop_bit (2 * (k mod 4)) (bytes (fst ?E) ! (0 + k div 4))) =
                 (of_nat (spec_code (fst (spec_select (group_at buf k)))) :: u8)) \<and>
            (\<forall>k. 3 \<le> k \<and> k < 4 \<longrightarrow>
               take_bit 2 (drop_bit (2 * (k mod 4)) (bytes (fst ?E) ! (0 + k div 4))) = 0) \<and>
            take 21 (drop 1 (bytes (fst ?E))) = [43, 0, 0, 0, 5] @ replicate 16 255"
    using t [THEN conjunct2, THEN conjunct1, rule_format, OF r] by (simp add: pl cm)
  have k0: "take_bit 2 (drop_bit (2 * (0 mod 4)) (bytes (fst ?E) ! (0 + 0 div 4))) = (1 :: u8)"
  proof -
    have "(0 :: nat) < 3" by simp
    then have "take_bit 2 (drop_bit (2 * (0 mod 4)) (bytes (fst ?E) ! (0 + 0 div 4))) =
        (of_nat (spec_code (fst (spec_select (group_at buf 0)))) :: u8)"
      using lay by blast
    then show ?thesis using s0 by (simp add: spec_code_def)
  qed
  have k1: "take_bit 2 (drop_bit (2 * (1 mod 4)) (bytes (fst ?E) ! (0 + 1 div 4))) = (3 :: u8)"
  proof -
    have "(1 :: nat) < 3" by simp
    then have "take_bit 2 (drop_bit (2 * (1 mod 4)) (bytes (fst ?E) ! (0 + 1 div 4))) =
        (of_nat (spec_code (fst (spec_select (group_at buf 1)))) :: u8)"
      using lay by blast
    then show ?thesis using s1 by (simp add: spec_code_def)
  qed
  have k2: "take_bit 2 (drop_bit (2 * (2 mod 4)) (bytes (fst ?E) ! (0 + 2 div 4))) = (0 :: u8)"
  proof -
    have "(2 :: nat) < 3" by simp
    then have "take_bit 2 (drop_bit (2 * (2 mod 4)) (bytes (fst ?E) ! (0 + 2 div 4))) =
        (of_nat (spec_code (fst (spec_select (group_at buf 2)))) :: u8)"
      using lay by blast
    then show ?thesis using s2 by (simp add: spec_code_def)
  qed
  have k3: "take_bit 2 (drop_bit (2 * (3 mod 4)) (bytes (fst ?E) ! (0 + 3 div 4))) = (0 :: u8)"
  proof -
    have "(3 :: nat) \<le> 3 \<and> (3 :: nat) < 4" by simp
    then show ?thesis using lay by blast
  qed
  have pay: "take 21 (drop 1 (bytes (fst ?E))) = [43, 0, 0, 0, 5] @ replicate 16 255"
    using lay by blast
  show ?thesis
    using h1 h2 h3 h4 h5 r k0 k1 k2 k3 pay unfolding d0_def buf_def by blast
qed

text \<open>
  C4. For a block of 1 to 256 records, \<open>encodeVertexBlock\<close> hands the channels
  \<open>k = 0, \<dots>, vertex_size - 1\<close> to \<open>encodeBytes\<close> in this order, each with the cursor the
  previous one returned, and stops at the first failure. The buffer of channel \<open>k\<close>
  holds, in its first \<open>16 * ceil(vertex_count / 16)\<close> bytes (the size handed over), the
  deltas \<open>zigzag8 (record[i][k] - p)\<close>, where \<open>p\<close> is \<open>last_vertex[k]\<close> for the first
  record and the raw byte \<open>record[i - 1][k]\<close> after it, followed by zeros. The deltas
  of every channel are taken against the \<open>last_vertex\<close> passed in; it is replaced by
  the last record of the block only when all channels are encoded, and left as it was
  when a channel fails.
\<close>

theorem encodeVertexBlock_channel_order:
  assumes "0 < vertex_count" and "vertex_count \<le> 256"
  shows "encodeVertexBlock d data data_end vertex_data vertex_count vertex_size last_vertex =
           (case spec_encode_channels d data data_end
                   (map (spec_channel_buffer vertex_data vertex_count vertex_size last_vertex)
                      [0..<vertex_size])
                   (16 * ((vertex_count + 15) div 16)) of
              (d', None) \<Rightarrow> (d', None, last_vertex)
            | (d', Some p) \<Rightarrow>
                (d', Some p,
                 take vertex_size (drop (vertex_size * (vertex_count - 1)) vertex_data)
                   @ drop vertex_size last_vertex)) \<and>
         (\<forall>k. take (16 * ((vertex_count + 15) div 16))
                 (spec_channel_buffer vertex_data vertex_count vertex_size last_vertex k) =
               map (\<lambda>i. zigzag8 (vertex_data ! (i * vertex_size + k)
                      - (if i = 0 then last_vertex ! k
                         else vertex_data ! ((i - 1) * vertex_size + k)))) [0..<vertex_count]
                 @ replicate (16 * ((vertex_count + 15) div 16) - vertex_count) 0)"
proof -
  have ch: "encodeVertexBlock_channels d data data_end vertex_data vertex_count vertex_size
      last_vertex (replicate 256 0) 0 =
    spec_encode_channels d data data_end
      (map (spec_channel_buffer vertex_data vertex_count vertex_size last_vertex)
         [0..<vertex_size])
      (16 * ((vertex_count + 15) div 16))"
    by (rule channels_eq [OF assms(2) refl]) simp_all
  have "take (16 * ((vertex_count + 15) div 16))
          (spec_channel_buffer vertex_data vertex_count vertex_size last_vertex k) =
        map (\<lambda>i. zigzag8 (vertex_data ! (i * vertex_size + k)
               - (if i = 0 then last_vertex ! k
                  else vertex_data ! ((i - 1) * vertex_size + k)))) [0..<vertex_count]
          @ replicate (16 * ((vertex_count + 15) div 16) - vertex_count) 0" for k
    unfolding spec_channel_buffer_take [OF assms(2)] spec_deltas_def
    by (simp add: spec_delta_def [abs_def])
  then show ?thesis
    using assms
    by (simp add: encodeVertexBlock_def assert_that_def kVertexBlockMaxSize_def
        kByteGroupSize_def Let_def ch memcpy_array_def split: prod.splits option.splits)
qed

theorem encodeVertexBlock_channel_order_witness:
  "(0 :: nat) < 2 \<and> (2 :: nat) \<le> 256 \<and>
   take (16 * ((2 + 15) div 16))
     (spec_channel_buffer [10, 20, 13, 18] 2 2 (replicate 256 7) 0) =
   [zigzag8 (10 - 7), zigzag8 (13 - 10)] @ replicate 14 0"
proof -
  have h1: "(0 :: nat) < 2" and h2: "(2 :: nat) \<le> 256" by simp_all
  have n: "[0..<2] = [0, Suc 0]" by (simp add: upt_conv_Cons)
  from encodeVertexBlock_channel_order [OF h1 h2, of "\<lparr>bytes = replicate 64 0, overrun = False, aborted = False\<rparr>" 0 64 "[10, 20, 13, 18]" 2
      "replicate 256 7"]
  have "take (16 * ((2 + 15) div 16))
     (spec_channel_buffer [10, 20, 13, 18] 2 2 (replicate 256 7) 0) =
     map (\<lambda>i. zigzag8 ([10, 20, 13, 18] ! (i * 2 + 0)
            - (if i = 0 then replicate 256 7 ! 0 else [10, 20, 13, 18] ! ((i - 1) * 2 + 0))))
       [0..<2] @ replicate (16 * ((2 + 15) div 16) - 2) 0"
    by blast
  then show ?thesis using h1 h2 by (simp add: n)
qed

lemma encodeV1_succeeds:
  assumes "0 < vs" "vs \<le> 256" "vs mod 4 = 0" "length vd = vc * vs"
    "length (bytes d) = buffer_size" "buffer_size < 2 ^ 64"
    "length (spec_stream vd vc vs) \<le> buffer_size"
  shows "snd (encodeV1 d buffer_size vd vc vs) = length (spec_stream vd vc vs)"
    and "snd (encodeV1 d buffer_size vd vc vs) \<noteq> 0"
    and "take (length (spec_stream vd vc vs)) (bytes (fst (encodeV1 d buffer_size vd vc vs))) =
      spec_stream vd vc vs"
proof -
  have run: "encodeV1 d buffer_size vd vc vs =
      (fst (encodeV1 d buffer_size vd vc vs), snd (encodeV1 d buffer_size vd vc vs))" by simp
  note r = encodeV1_run [OF assms(1-6) run]
  show 1: "snd (encodeV1 d buffer_size vd vc vs) = length (spec_stream vd vc vs)"
    using r(3) assms(7) by blast
  show 2: "snd (encodeV1 d buffer_size vd vc vs) \<noteq> 0"
    unfolding 1 by (simp add: spec_stream_def)
  show "take (length (spec_stream vd vc vs)) (bytes (fst (encodeV1 d buffer_size vd vc vs))) =
      spec_stream vd vc vs"
    using r(2) [OF 2] unfolding 1 by blast
qed

lemma spec_stream_unfold:
  "spec_stream vertex_data vertex_count vertex_size =
           [0xA1]
           @ concat (map (\<lambda>j. spec_block
                 (drop (j * getVertexBlockSize vertex_size * vertex_size) vertex_data)
                 (min (getVertexBlockSize vertex_size)
                    (vertex_count - j * getVertexBlockSize vertex_size))
                 vertex_size
                 (spec_predictor vertex_data vertex_size
                    (if j = 0 then 0 else j * getVertexBlockSize vertex_size - 1)))
               [0..<(vertex_count + getVertexBlockSize vertex_size - 1)
                      div getVertexBlockSize vertex_size])
           @ replicate (32 - vertex_size) 0
           @ (if 0 < vertex_count then take vertex_size vertex_data
              else replicate vertex_size 0)"
    unfolding spec_stream_def spec_blocks_from_def spec_block_at_def [abs_def] spec_tail_def
      spec_first_vertex_def getVertexBlockSize_eq ..

text \<open>
  C1. For a record array with \<open>0 < vertex_size \<le> 256\<close> and \<open>vertex_size mod 4 = 0\<close>, a
  successful \<open>encodeV1\<close> (a non-zero result \<open>R\<close>) leaves in the first \<open>R\<close> bytes of the
  destination: the format byte \<open>0xA1\<close>; the encodings of the consecutive blocks of
  \<open>block_vertices = min 256 (16 * ((8192 div vertex_size) div 16))\<close> records, the last
  block holding the remainder, block \<open>j\<close> encoded against the record before it (the
  first record for block 0); then \<open>32 - vertex_size\<close> zero bytes and the first record
  (zeros when the array is empty), \<open>max vertex_size 32\<close> bytes together. \<open>R\<close> is the
  number of these bytes.
\<close>

theorem encodeV1_stream_layout:
  assumes "0 < vertex_size" and "vertex_size \<le> 256" and "vertex_size mod 4 = 0"
    and "length vertex_data = vertex_count * vertex_size"
    and "length (bytes d) = buffer_size" and "buffer_size < 2 ^ 64"
    and "encodeV1 d buffer_size vertex_data vertex_count vertex_size = (d', R)" and "R \<noteq> 0"
  shows "getVertexBlockSize vertex_size = min 256 (16 * ((8192 div vertex_size) div 16)) \<and>
         take R (bytes d') =
           [0xA1]
           @ concat (map (\<lambda>j. spec_block
                 (drop (j * getVertexBlockSize vertex_size * vertex_size) vertex_data)
                 (min (getVertexBlockSize vertex_size)
                    (vertex_count - j * getVertexBlockSize vertex_size))
                 vertex_size
                 (spec_predictor vertex_data vertex_size
                    (if j = 0 then 0 else j * getVertexBlockSize vertex_size - 1)))
               [0..<(vertex_count + getVertexBlockSize vertex_size - 1)
                      div getVertexBlockSize vertex_size])
           @ replicate (32 - vertex_size) 0
           @ (if 0 < vertex_count then take vertex_size vertex_data
              else replicate vertex_size 0) \<and>
         length (replicate (32 - vertex_size) (0 :: u8)
           @ (if 0 < vertex_count then take vertex_size vertex_data
              else replicate vertex_size 0)) = max vertex_size 32 \<and>
         R = length (take R (bytes d')) \<and> R \<le> buffer_size"
proof -
  note r = encodeV1_run(2) [OF assms(1-7) assms(8)]
  have t: "length (replicate (32 - vertex_size) (0 :: u8)
           @ (if 0 < vertex_count then take vertex_size vertex_data
              else replicate vertex_size 0)) = max vertex_size 32"
    using spec_tail_length [of vertex_count vertex_size vertex_data] assms(4)
    by (simp add: spec_tail_def spec_first_vertex_def)
  have "length (bytes d') = buffer_size"
    using encodeV1_run(1) [OF assms(1-7)] assms(5) by simp
  then have len: "R = length (take R (bytes d'))" using r by (simp add: min_def)
  have bv: "getVertexBlockSize vertex_size = min 256 (16 * ((8192 div vertex_size) div 16))"
    by (simp only: getVertexBlockSize_eq spec_block_vertices_def)
  have tk: "take R (bytes d') = spec_stream vertex_data vertex_count vertex_size"
    and le: "R \<le> buffer_size"
    using r by blast+
  show ?thesis
    using bv tk [unfolded spec_stream_unfold] t len le by blast
qed

theorem encodeV1_stream_layout_witness:
  "(0 :: nat) < 4 \<and> (4 :: nat) \<le> 256 \<and> (4 :: nat) mod 4 = 0 \<and>
   length [0, 0, 0, 0, 1, 0, 0, 0, 2, 0, 0, 0, 255, 0, 0, 0 :: u8] = 4 * 4 \<and>
   length (bytes \<lparr>bytes = replicate 64 9, overrun = False, aborted = False\<rparr>) = 64 \<and>
   (64 :: nat) < 2 ^ 64 \<and>
   snd (encodeV1 \<lparr>bytes = replicate 64 9, overrun = False, aborted = False\<rparr> 64
          [0, 0, 0, 0, 1, 0, 0, 0, 2, 0, 0, 0, 255, 0, 0, 0] 4 4) = 42 \<and>
   take 42 (bytes (fst (encodeV1 \<lparr>bytes = replicate 64 9, overrun = False, aborted = False\<rparr>
          64 [0, 0, 0, 0, 1, 0, 0, 0, 2, 0, 0, 0, 255, 0, 0, 0] 4 4))) =
     [0xA1, 1, 43, 0, 0, 0, 5, 0, 0, 0] @ replicate 28 0 @ [0, 0, 0, 0]"
proof -
  define d0 where "d0 = \<lparr>bytes = replicate 64 (9 :: u8), overrun = False, aborted = False\<rparr>"
  define vd where "vd = [0, 0, 0, 0, 1, 0, 0, 0, 2, 0, 0, 0, 255, 0, 0, 0 :: u8]"
  let ?E = "encodeV1 d0 64 vd 4 4"
  have h1: "(0 :: nat) < 4" and h2: "(4 :: nat) \<le> 256" and h3: "(4 :: nat) mod 4 = 0"
    and h6: "(64 :: nat) < 2 ^ 64" by simp_all
  have h4: "length vd = 4 * 4" by (simp add: vd_def)
  have h5: "length (bytes d0) = 64" by (simp add: d0_def)
  have sp: "spec_stream vd 4 4 = [0xA1, 1, 43, 0, 0, 0, 5, 0, 0, 0] @ replicate 28 0 @ [0, 0, 0, 0]"
    unfolding vd_def by code_simp
  then have ln: "length (spec_stream vd 4 4) = 42" by simp
  have fit: "length (spec_stream vd 4 4) \<le> 64" unfolding ln by simp
  have R: "snd ?E = 42"
    using encodeV1_succeeds(1) [OF h1 h2 h3 h4 h5 h6 fit] ln by simp
  have run: "?E = (fst ?E, 42)" using R by (metis prod.collapse)
  have nz: "(42 :: nat) \<noteq> 0" by simp
  note t = encodeV1_stream_layout [OF h1 h2 h3 h4 h5 h6 run nz]
  have "take 42 (bytes (fst ?E)) = spec_stream vd 4 4"
    using t [folded spec_stream_unfold] by (rule conjunct1 [OF conjunct2])
  then have "take 42 (bytes (fst ?E)) =
      [0xA1, 1, 43, 0, 0, 0, 5, 0, 0, 0] @ replicate 28 0 @ [0, 0, 0, 0]"
    unfolding sp .
  then show ?thesis
    using h1 h2 h3 h4 h5 h6 R unfolding d0_def vd_def by blast
qed

text \<open>
  C6. For a valid record array let \<open>R\<close> be the length of the stream
  \<open>spec_stream vertex_data vertex_count vertex_size\<close>; \<open>R\<close> is positive, and it is the size
  every successful \<open>encodeV1\<close> returns for that array, on whatever destination. On every
  destination of a capacity below \<open>R\<close> \<open>encodeV1\<close> returns 0, and on every destination of
  a capacity of at least \<open>R\<close> it succeeds: it returns \<open>R\<close> and writes the same \<open>R\<close> bytes,
  the stream.
\<close>

theorem encodeV1_capacity_monotone:
  assumes "0 < vertex_size" and "vertex_size \<le> 256" and "vertex_size mod 4 = 0"
    and "length vertex_data = vertex_count * vertex_size"
    and "length (bytes d) = capacity" and "capacity < 2 ^ 64"
  shows "0 < length (spec_stream vertex_data vertex_count vertex_size) \<and>
         (capacity < length (spec_stream vertex_data vertex_count vertex_size) \<longrightarrow>
            snd (encodeV1 d capacity vertex_data vertex_count vertex_size) = 0) \<and>
         (length (spec_stream vertex_data vertex_count vertex_size) \<le> capacity \<longrightarrow>
            snd (encodeV1 d capacity vertex_data vertex_count vertex_size) =
              length (spec_stream vertex_data vertex_count vertex_size) \<and>
            take (length (spec_stream vertex_data vertex_count vertex_size))
                 (bytes (fst (encodeV1 d capacity vertex_data vertex_count vertex_size))) =
              spec_stream vertex_data vertex_count vertex_size) \<and>
         (\<forall>d0 capacity0.
            length (bytes d0) = capacity0 \<and> capacity0 < 2 ^ 64 \<and>
            snd (encodeV1 d0 capacity0 vertex_data vertex_count vertex_size) \<noteq> 0 \<longrightarrow>
              snd (encodeV1 d0 capacity0 vertex_data vertex_count vertex_size) =
                length (spec_stream vertex_data vertex_count vertex_size) \<and>
              take (length (spec_stream vertex_data vertex_count vertex_size))
                   (bytes (fst (encodeV1 d0 capacity0 vertex_data vertex_count vertex_size))) =
                spec_stream vertex_data vertex_count vertex_size)"
proof -
  let ?S = "spec_stream vertex_data vertex_count vertex_size"
  have pos: "0 < length ?S" by (simp add: spec_stream_def)
  have any: "snd (encodeV1 d0 capacity0 vertex_data vertex_count vertex_size) = length ?S \<and>
      length ?S \<le> capacity0 \<and>
      take (length ?S) (bytes (fst (encodeV1 d0 capacity0 vertex_data vertex_count vertex_size))) = ?S"
    if l: "length (bytes d0) = capacity0" and c: "capacity0 < 2 ^ 64"
      and nz: "snd (encodeV1 d0 capacity0 vertex_data vertex_count vertex_size) \<noteq> 0"
    for d0 capacity0
  proof -
    have run: "encodeV1 d0 capacity0 vertex_data vertex_count vertex_size =
      (fst (encodeV1 d0 capacity0 vertex_data vertex_count vertex_size),
       snd (encodeV1 d0 capacity0 vertex_data vertex_count vertex_size))" by simp
    note r = encodeV1_run(2) [OF assms(1-4) l c run nz]
    have e: "snd (encodeV1 d0 capacity0 vertex_data vertex_count vertex_size) = length ?S"
      using r by blast
    show ?thesis using r unfolding e by simp
  qed
  have small: "snd (encodeV1 d capacity vertex_data vertex_count vertex_size) = 0"
    if "capacity < length ?S"
  proof (rule ccontr)
    assume "snd (encodeV1 d capacity vertex_data vertex_count vertex_size) \<noteq> 0"
    from any [OF assms(5,6) this] have "length ?S \<le> capacity" by blast
    then show False using that by simp
  qed
  have big: "snd (encodeV1 d capacity vertex_data vertex_count vertex_size) = length ?S \<and>
      take (length ?S) (bytes (fst (encodeV1 d capacity vertex_data vertex_count vertex_size))) = ?S"
    if "length ?S \<le> capacity"
    using encodeV1_succeeds(1,3) [OF assms(1-6) that] by simp
  show ?thesis using pos small big any by blast
qed

theorem encodeV1_capacity_monotone_witness:
  "(0 :: nat) < 4 \<and> (4 :: nat) \<le> 256 \<and> (4 :: nat) mod 4 = 0 \<and>
   length [0, 0, 0, 0, 1, 0, 0, 0, 2, 0, 0, 0, 255, 0, 0, 0 :: u8] = 4 * 4 \<and>
   length (bytes \<lparr>bytes = replicate 41 5, overrun = False, aborted = False\<rparr>) = 41 \<and>
   (41 :: nat) < 2 ^ 64 \<and>
   length (bytes \<lparr>bytes = replicate 42 9, overrun = False, aborted = False\<rparr>) = 42 \<and>
   (42 :: nat) < 2 ^ 64 \<and>
   snd (encodeV1 \<lparr>bytes = replicate 41 5, overrun = False, aborted = False\<rparr> 41
          [0, 0, 0, 0, 1, 0, 0, 0, 2, 0, 0, 0, 255, 0, 0, 0] 4 4) = 0 \<and>
   snd (encodeV1 \<lparr>bytes = replicate 42 9, overrun = False, aborted = False\<rparr> 42
          [0, 0, 0, 0, 1, 0, 0, 0, 2, 0, 0, 0, 255, 0, 0, 0] 4 4) = 42 \<and>
   take 42 (bytes (fst (encodeV1 \<lparr>bytes = replicate 42 9, overrun = False, aborted = False\<rparr>
          42 [0, 0, 0, 0, 1, 0, 0, 0, 2, 0, 0, 0, 255, 0, 0, 0] 4 4))) =
     [0xA1, 1, 43, 0, 0, 0, 5, 0, 0, 0] @ replicate 28 0 @ [0, 0, 0, 0]"
proof -
  define d1 where "d1 = \<lparr>bytes = replicate 41 (5 :: u8), overrun = False, aborted = False\<rparr>"
  define d2 where "d2 = \<lparr>bytes = replicate 42 (9 :: u8), overrun = False, aborted = False\<rparr>"
  define vd where "vd = [0, 0, 0, 0, 1, 0, 0, 0, 2, 0, 0, 0, 255, 0, 0, 0 :: u8]"
  have h1: "(0 :: nat) < 4" and h2: "(4 :: nat) \<le> 256" and h3: "(4 :: nat) mod 4 = 0"
    and h6: "(41 :: nat) < 2 ^ 64" and h8: "(42 :: nat) < 2 ^ 64" by simp_all
  have h4: "length vd = 4 * 4" by (simp add: vd_def)
  have h5: "length (bytes d1) = 41" by (simp add: d1_def)
  have h7: "length (bytes d2) = 42" by (simp add: d2_def)
  have sp: "spec_stream vd 4 4 = [0xA1, 1, 43, 0, 0, 0, 5, 0, 0, 0] @ replicate 28 0 @ [0, 0, 0, 0]"
    unfolding vd_def by code_simp
  then have ln: "length (spec_stream vd 4 4) = 42" by simp
  note t1 = encodeV1_capacity_monotone [OF h1 h2 h3 h4 h5 h6, unfolded ln]
  note t2 = encodeV1_capacity_monotone [OF h1 h2 h3 h4 h7 h8, unfolded ln]
  have a: "snd (encodeV1 d1 41 vd 4 4) = 0"
    using t1 [THEN conjunct2, THEN conjunct1] by simp
  have b: "snd (encodeV1 d2 42 vd 4 4) = 42 \<and>
      take 42 (bytes (fst (encodeV1 d2 42 vd 4 4))) = spec_stream vd 4 4"
    using t2 [THEN conjunct2, THEN conjunct2, THEN conjunct1] by simp
  have c: "take 42 (bytes (fst (encodeV1 d2 42 vd 4 4))) =
      [0xA1, 1, 43, 0, 0, 0, 5, 0, 0, 0] @ replicate 28 0 @ [0, 0, 0, 0]"
    using b unfolding sp by blast
  show ?thesis
    using h1 h2 h3 h4 h5 h6 h7 h8 a b c unfolding d1_def d2_def vd_def by blast
qed

lemma encodeV1_blocks_empty:
  "encodeV1_blocks d data data_end vertex_data 0 vertex_size last_vertex bv 0 =
     (d, Some data, last_vertex)"
  by (subst encodeV1_blocks.simps) simp

lemma encodeV1_empty_data:
  "encodeV1 d buffer_size vertex_data 0 vertex_size = encodeV1 d buffer_size [] 0 vertex_size"
  by (simp add: encodeV1_def encodeV1_blocks_empty)

lemma spec_stream_empty:
  "spec_stream [] 0 vertex_size = 0xA1 # replicate (max vertex_size 32) 0"
proof -
  have "replicate (32 - vertex_size) (0 :: u8) @ replicate vertex_size 0 =
      replicate (max vertex_size 32) 0"
    by (simp add: replicate_add [symmetric] max_def)
  moreover have "(bv - Suc 0) div bv = 0" for bv :: nat
    by (cases bv) simp_all
  ultimately show ?thesis
    by (simp add: spec_stream_def spec_blocks_from_def spec_tail_def spec_first_vertex_def)
qed

text \<open>
  C10. For \<open>vertex_count = 0\<close>, a valid \<open>vertex_size\<close> and a capacity of at least
  \<open>1 + max vertex_size 32\<close>, \<open>encodeV1\<close> returns exactly \<open>1 + max vertex_size 32\<close>, and the
  stream is the format byte \<open>0xA1\<close> followed by the tail, every byte of which is zero.
  The source pointer is not read.
\<close>

theorem encodeV1_empty_array:
  assumes "0 < vertex_size" and "vertex_size \<le> 256" and "vertex_size mod 4 = 0"
    and "length (bytes d) = buffer_size" and "buffer_size < 2 ^ 64"
    and "1 + max vertex_size 32 \<le> buffer_size"
  shows "snd (encodeV1 d buffer_size vertex_data 0 vertex_size) = 1 + max vertex_size 32 \<and>
         take (1 + max vertex_size 32)
           (bytes (fst (encodeV1 d buffer_size vertex_data 0 vertex_size))) =
           0xA1 # replicate (max vertex_size 32) 0"
proof -
  have l: "length ([] :: u8 list) = 0 * vertex_size" by simp
  have fit: "length (spec_stream [] 0 vertex_size) \<le> buffer_size"
    using assms(6) by (simp add: spec_stream_empty)
  show ?thesis
    using encodeV1_succeeds(1,3) [OF assms(1-3) l assms(4,5) fit]
    unfolding encodeV1_empty_data [of d buffer_size vertex_data]
    by (simp add: spec_stream_empty)
qed

theorem encodeV1_empty_array_witness:
  "(0 :: nat) < 8 \<and> (8 :: nat) \<le> 256 \<and> (8 :: nat) mod 4 = 0 \<and>
   length (bytes \<lparr>bytes = replicate 33 9, overrun = False, aborted = False\<rparr>) = 33 \<and>
   (33 :: nat) < 2 ^ 64 \<and> 1 + max (8 :: nat) 32 \<le> 33 \<and>
   snd (encodeV1 \<lparr>bytes = replicate 33 9, overrun = False, aborted = False\<rparr> 33 [] 0 8) = 33 \<and>
   take 33 (bytes (fst (encodeV1 \<lparr>bytes = replicate 33 9, overrun = False, aborted = False\<rparr>
      33 [] 0 8))) = 0xA1 # replicate 32 0"
proof -
  define d where "d = \<lparr>bytes = replicate 33 (9 :: u8), overrun = False, aborted = False\<rparr>"
  have h1: "(0 :: nat) < 8" and h2: "(8 :: nat) \<le> 256" and h3: "(8 :: nat) mod 4 = 0"
    and h5: "(33 :: nat) < 2 ^ 64" and h6: "1 + max (8 :: nat) 32 \<le> 33" by simp_all
  have h4: "length (bytes d) = 33" by (simp add: d_def)
  have t: "snd (encodeV1 d 33 [] 0 8) = 33 \<and>
      take 33 (bytes (fst (encodeV1 d 33 [] 0 8))) = 0xA1 # replicate 32 0"
    using encodeV1_empty_array [OF h1 h2 h3 h4 h5 h6, of "[]"] by simp
  show ?thesis
    using t h1 h2 h3 h4 h5 h6 unfolding d_def by blast
qed

lemma store_overrun_iff: "overrun (store d p v) = (overrun d \<or> length (bytes d) \<le> p)"
  by (simp add: store_def)

lemma blit_overrun_iff:
  "overrun (blit d p xs) = (overrun d \<or> (xs \<noteq> [] \<and> length (bytes d) < p + length xs))"
proof (induction xs arbitrary: d p)
  case Nil
  then show ?case by simp
next
  case (Cons x xs)
  have "overrun (blit d p (x # xs)) = overrun (blit (store d p x) (p + 1) xs)" by simp
  also have "\<dots> = (overrun (store d p x) \<or>
      (xs \<noteq> [] \<and> length (bytes (store d p x)) < p + 1 + length xs))"
    by (rule Cons.IH)
  also have "\<dots> = (overrun d \<or> (x # xs \<noteq> [] \<and> length (bytes d) < p + length (x # xs)))"
    by (cases xs) (auto simp add: store_overrun_iff)
  finally show ?case .
qed

lemma store32_props:
  "length (bytes (store32 d p v)) = length (bytes d)"
  "aborted (store32 d p v) = aborted d"
  "overrun (store32 d p v) = (overrun d \<or> length (bytes d) < p + 4)"
  by (auto simp add: store32_def blit_overrun_iff simp del: blit.simps)

lemma ndz_planes_inv:
  assumes "length T = 32"
  shows "32 - j = n \<Longrightarrow>
    snd (encodeNDZ_planes d pos T j) = pos + 4 * length (filter (\<lambda>x. x \<noteq> 0) (drop j T)) \<and>
    length (bytes (fst (encodeNDZ_planes d pos T j))) = length (bytes d) \<and>
    aborted (fst (encodeNDZ_planes d pos T j)) = aborted d \<and>
    overrun (fst (encodeNDZ_planes d pos T j)) =
      (overrun d \<or> (filter (\<lambda>x. x \<noteq> 0) (drop j T) \<noteq> [] \<and>
         length (bytes d) < pos + 4 * length (filter (\<lambda>x. x \<noteq> 0) (drop j T))))"
proof (induction n arbitrary: d pos j)
  case 0
  then have "drop j T = []" using assms by simp
  then show ?case using 0 by (subst (1 2 3 4) encodeNDZ_planes.simps) simp
next
  case (Suc n)
  then have j: "j < 32" by simp
  have n: "32 - (j + 1) = n" using Suc.prems by simp
  have dr: "drop j T = T ! j # drop (j + 1) T"
    using j assms by (simp add: Cons_nth_drop_Suc)
  show ?case
  proof (cases "T ! j = 0")
    case True
    have "encodeNDZ_planes d pos T j = encodeNDZ_planes d pos T (j + 1)"
      using j True by (subst encodeNDZ_planes.simps) simp
    then show ?thesis using Suc.IH [OF n, of d pos] True by (simp add: dr)
  next
    case False
    have "encodeNDZ_planes d pos T j =
        encodeNDZ_planes (store32 d pos (T ! j)) (pos + 4) T (j + 1)"
      using j False by (subst encodeNDZ_planes.simps) simp
    then show ?thesis
      using Suc.IH [OF n, of "store32 d pos (T ! j)" "pos + 4"] False
      by (auto simp add: dr store32_props)
  qed
qed

lemma ndz_row_tail_zero:
  assumes "\<forall>j. c \<le> j \<and> j < 32 \<longrightarrow> deltas ! j = 0"
  shows "32 - jc = n \<Longrightarrow> c \<le> jc \<Longrightarrow> encodeNDZ_row deltas jr t jc = t"
proof (induction n arbitrary: jc)
  case 0
  then show ?case by (subst encodeNDZ_row.simps) simp
next
  case (Suc n)
  then have c: "jc < 32" by simp
  then have z: "deltas ! jc = 0" using assms Suc.prems by blast
  have "encodeNDZ_row deltas jr t jc = encodeNDZ_row deltas jr t (jc + 1)"
    using c z by (subst encodeNDZ_row.simps) simp
  also have "\<dots> = t" using Suc by simp
  finally show ?case .
qed

lemma ndz_row_single:
  assumes "\<forall>j. 1 \<le> j \<and> j < 32 \<longrightarrow> deltas ! j = 0"
  shows "encodeNDZ_row deltas jr t 0 =
    (if deltas ! 0 AND push_bit jr 1 \<noteq> 0 then t OR 1 else t)"
proof -
  have "encodeNDZ_row deltas jr t 0 =
      encodeNDZ_row deltas jr (if deltas ! 0 AND push_bit jr 1 \<noteq> 0 then t OR push_bit 0 1 else t) (0 + 1)"
    by (subst encodeNDZ_row.simps) simp
  also have "\<dots> = (if deltas ! 0 AND push_bit jr 1 \<noteq> 0 then t OR push_bit 0 1 else t)"
    by (rule ndz_row_tail_zero [OF assms, of _ 31]) simp_all
  finally show ?thesis by simp
qed

lemma ndz_transpose_single:
  assumes "\<forall>j. 1 \<le> j \<and> j < 32 \<longrightarrow> deltas ! j = 0" and "length T = 32"
  shows "32 - jr = n \<Longrightarrow>
    length (encodeNDZ_transpose deltas T jr) = 32 \<and>
    (\<forall>i < 32. encodeNDZ_transpose deltas T jr ! i =
       (if jr \<le> i then (if deltas ! 0 AND push_bit i 1 \<noteq> 0 then T ! i OR 1 else T ! i)
        else T ! i))"
  using assms(2)
proof (induction n arbitrary: T jr)
  case 0
  then show ?case by (subst (1 2) encodeNDZ_transpose.simps) simp
next
  case (Suc n)
  then have j: "jr < 32" by simp
  have n: "32 - (jr + 1) = n" using Suc.prems by simp
  let ?T = "T[jr := encodeNDZ_row deltas jr (T ! jr) 0]"
  have l: "length ?T = 32" using Suc.prems by simp
  have e: "encodeNDZ_transpose deltas T jr = encodeNDZ_transpose deltas ?T (jr + 1)"
    using j by (subst encodeNDZ_transpose.simps) simp
  note ih = Suc.IH [OF n l]
  show ?case
  proof (intro conjI allI impI)
    show "length (encodeNDZ_transpose deltas T jr) = 32" using ih e by simp
  next
    fix i :: nat
    assume i: "i < 32"
    have "encodeNDZ_transpose deltas T jr ! i =
        (if jr + 1 \<le> i then (if deltas ! 0 AND push_bit i 1 \<noteq> 0 then ?T ! i OR 1 else ?T ! i)
         else ?T ! i)"
      using ih i e by simp
    then show "encodeNDZ_transpose deltas T jr ! i =
       (if jr \<le> i then (if deltas ! 0 AND push_bit i 1 \<noteq> 0 then T ! i OR 1 else T ! i)
        else T ! i)"
      using i j Suc.prems(2) by (cases "i = jr") (auto simp add: ndz_row_single [OF assms(1)])
  qed
qed

lemma ndz_transposed_planes:
  assumes "\<forall>j. 1 \<le> j \<and> j < 32 \<longrightarrow> deltas ! j = 0"
  shows "encodeNDZ_transpose deltas (replicate 32 0) 0 =
    map (\<lambda>i. if deltas ! 0 AND push_bit i 1 \<noteq> 0 then 1 else 0) [0..<32]"
proof -
  have l: "length (replicate 32 (0 :: u32)) = 32" by simp
  note t = ndz_transpose_single [OF assms l, of 0 32]
  show ?thesis
    by (rule nth_equalityI) (use t in \<open>simp_all del: upt_Suc replicate_Suc\<close>)
qed

lemma ndz55_deltas:
  "encodeNDZ_deltas (replicate 12 0x55) (Suc 0) 12 0 0 (replicate 32 0) 0 0 =
     ((replicate 32 0)[0 := 0xD5555555], 0xAAAAAAAA)"
  "encodeNDZ_deltas (replicate 12 0x55) (Suc 0) 12 4 0 (replicate 32 0) 0 0 =
     ((replicate 32 0)[0 := 0xD5555555], 0xAAAAAAAA)"
  "encodeNDZ_deltas (replicate 12 0x55) (Suc 0) 12 8 0 (replicate 32 0) 0 0 =
     ((replicate 32 0)[0 := 0xD5555555], 0xAAAAAAAA)"
  by code_simp+

lemma ndz55_count:
  "length (filter (\<lambda>x. x \<noteq> 0)
     (map (\<lambda>i. if (0xD5555555 :: u32) AND push_bit i 1 \<noteq> 0 then 1 else (0 :: u32)) [0..<32])) = 17"
  by code_simp

lemma ndz55_chunk:
  assumes "k = 0 \<or> k = 4 \<or> k = 8"
  shows "snd (encodeNDZ_chunks d pos (replicate 12 0x55) (Suc 0) 12 k 0 0) = pos + 72 \<and>
    length (bytes (fst (encodeNDZ_chunks d pos (replicate 12 0x55) (Suc 0) 12 k 0 0))) =
      length (bytes d) \<and>
    aborted (fst (encodeNDZ_chunks d pos (replicate 12 0x55) (Suc 0) 12 k 0 0)) = aborted d \<and>
    overrun (fst (encodeNDZ_chunks d pos (replicate 12 0x55) (Suc 0) 12 k 0 0)) =
      (overrun d \<or> length (bytes d) < pos + 72)"
proof -
  define D where "D = (replicate 32 0)[0 := 0xD5555555 :: u32]"
  define T where "T = encodeNDZ_transpose D (replicate 32 0) 0"
  have dl: "encodeNDZ_deltas (replicate 12 0x55) (Suc 0) 12 k 0 (replicate 32 0) 0 0 =
      (D, 0xAAAAAAAA)"
    using assms ndz55_deltas unfolding D_def by blast
  have tz: "\<forall>j. 1 \<le> j \<and> j < 32 \<longrightarrow> D ! j = 0" by (simp add: D_def)
  have D0: "D ! 0 = 0xD5555555" by (simp add: D_def)
  have T: "T = map (\<lambda>i. if (0xD5555555 :: u32) AND push_bit i 1 \<noteq> 0 then 1 else 0) [0..<32]"
    unfolding T_def ndz_transposed_planes [OF tz] D0 ..
  have lT: "length T = 32" unfolding T by simp
  have cT: "length (filter (\<lambda>x. x \<noteq> 0) T) = 17" unfolding T by (rule ndz55_count)
  then have nT: "filter (\<lambda>x. x \<noteq> 0) T \<noteq> []" by auto
  define d1 where "d1 = store32 d pos (encodeNDZ_mask T 0 0)"
  have e2: "encodeNDZ_chunks d' pos' (replicate 12 0x55) (Suc 0) 12 k lv 32 = (d', pos')"
    for d' pos' lv
    by (subst encodeNDZ_chunks.simps) simp
  have e: "encodeNDZ_chunks d pos (replicate 12 0x55) (Suc 0) 12 k 0 0 =
      encodeNDZ_planes d1 (pos + 4) T 0"
    by (subst encodeNDZ_chunks.simps)
      (simp add: dl T_def [symmetric] d1_def [symmetric] case_prod_beta e2)
  note p = ndz_planes_inv [OF lT, of 0 32 d1 "pos + 4"]
  show ?thesis
    unfolding e using p cT nT by (auto simp add: d1_def store32_props)
qed

lemma ndz55_channels:
  "snd (encodeNDZ_channels d 0 (replicate 12 0x55) (Suc 0) 12 0) = 216 \<and>
   length (bytes (fst (encodeNDZ_channels d 0 (replicate 12 0x55) (Suc 0) 12 0))) =
     length (bytes d) \<and>
   aborted (fst (encodeNDZ_channels d 0 (replicate 12 0x55) (Suc 0) 12 0)) = aborted d \<and>
   overrun (fst (encodeNDZ_channels d 0 (replicate 12 0x55) (Suc 0) 12 0)) =
     (overrun d \<or> length (bytes d) < 216)"
proof -
  define r1 where "r1 = encodeNDZ_chunks d 0 (replicate 12 0x55) (Suc 0) 12 0 0 0"
  define r2 where "r2 = encodeNDZ_chunks (fst r1) (snd r1) (replicate 12 0x55) (Suc 0) 12 4 0 0"
  define r3 where "r3 = encodeNDZ_chunks (fst r2) (snd r2) (replicate 12 0x55) (Suc 0) 12 8 0 0"
  have c12: "encodeNDZ_channels d' pos' (replicate 12 0x55) (Suc 0) 12 12 = (d', pos')"
    for d' pos'
    by (subst encodeNDZ_channels.simps) simp
  have c8: "encodeNDZ_channels (fst r2) (snd r2) (replicate 12 0x55) (Suc 0) 12 8 = r3"
    by (subst encodeNDZ_channels.simps) (simp add: r3_def case_prod_beta c12)
  have c4: "encodeNDZ_channels (fst r1) (snd r1) (replicate 12 0x55) (Suc 0) 12 4 = r3"
    by (subst encodeNDZ_channels.simps) (simp add: r2_def [symmetric] case_prod_beta c8)
  have c0: "encodeNDZ_channels d 0 (replicate 12 0x55) (Suc 0) 12 0 = r3"
    by (subst encodeNDZ_channels.simps) (simp add: r1_def [symmetric] case_prod_beta c4)
  have k0: "(0 :: nat) = 0 \<or> (0 :: nat) = 4 \<or> (0 :: nat) = 8"
    and k4: "(4 :: nat) = 0 \<or> (4 :: nat) = 4 \<or> (4 :: nat) = 8"
    and k8: "(8 :: nat) = 0 \<or> (8 :: nat) = 4 \<or> (8 :: nat) = 8" by simp_all
  note p1 = ndz55_chunk [OF k0, of d 0, folded r1_def]
  note p2 = ndz55_chunk [OF k4, of "fst r1" "snd r1", folded r2_def]
  note p3 = ndz55_chunk [OF k8, of "fst r2" "snd r2", folded r3_def]
  show ?thesis unfolding c0 using p1 p2 p3 by auto
qed

text \<open>
  C9. \<open>encodeNDZ\<close> does not check the remaining capacity before it writes. For one
  12-byte record whose bytes are all \<open>0x55\<close> it writes 216 bytes and returns 216, the
  number of bytes written, not a failure, whatever the capacity of the destination; on
  every destination of fewer than 216 bytes some of these writes land beyond the end of
  the destination.
\<close>

theorem encodeNDZ_writes_beyond_buffer:
  assumes "length (bytes d) = buffer_size"
  shows "snd (encodeNDZ d buffer_size (replicate 12 0x55) 1 12) = 216 \<and>
         aborted (fst (encodeNDZ d buffer_size (replicate 12 0x55) 1 12)) = aborted d \<and>
         overrun (fst (encodeNDZ d buffer_size (replicate 12 0x55) 1 12)) =
           (overrun d \<or> buffer_size < 216)"
  using ndz55_channels [of d] assms
  by (simp add: encodeNDZ_def case_prod_beta size_diff_def)

theorem encodeNDZ_writes_beyond_buffer_witness:
  "length (bytes \<lparr>bytes = replicate 48 0, overrun = False, aborted = False\<rparr>) = 48 \<and>
   snd (encodeNDZ \<lparr>bytes = replicate 48 0, overrun = False, aborted = False\<rparr> 48
          (replicate 12 0x55) 1 12) = 216 \<and>
   overrun (fst (encodeNDZ \<lparr>bytes = replicate 48 0, overrun = False, aborted = False\<rparr> 48
          (replicate 12 0x55) 1 12)) = True"
proof -
  have h: "length (bytes \<lparr>bytes = replicate 48 0, overrun = False, aborted = False\<rparr>) = 48"
    by simp
  show ?thesis using encodeNDZ_writes_beyond_buffer [OF h] h by simp
qed

end
